theory Spec2Isabelle
  imports Complex_Main "HOL-Library.Char_ord" "HOL-Library.List_Lexorder" "HOL-Library.Sublist"
begin

section \<open>JavaScript strings\<close>

text \<open>
  A JavaScript string is a sequence of UTF-16 code units. The embedding uses \<^typ>\<open>string\<close>
  and reads a \<^typ>\<open>char\<close> as the code unit of the same number (U+0000 to U+00FF), so
  \<^const>\<open>length\<close> is the \<^verbatim>\<open>.length\<close> of the source.
\<close>

abbreviation CR :: char where "CR \<equiv> CHR 0x0D"
abbreviation LF :: char where "LF \<equiv> CHR 0x0A"

definition isSpace :: "char \<Rightarrow> bool" where
  \<comment> \<open>The code units below U+0100 that \<^verbatim>\<open>String.prototype.trim\<close> strips and \<^verbatim>\<open>\s\<close> matches:
      TAB, LF, VT, FF, CR, SPACE, NBSP.\<close>
  "isSpace c \<longleftrightarrow> c = CHR 0x09 \<or> c = LF \<or> c = CHR 0x0B \<or> c = CHR 0x0C \<or> c = CR
     \<or> c = CHR '' '' \<or> c = CHR 0xA0"

definition trim :: "string \<Rightarrow> string" where
  "trim s = rev (dropWhile isSpace (rev (dropWhile isSpace s)))"

fun replaceCRLF :: "string \<Rightarrow> string" where
  \<comment> \<open>\<^verbatim>\<open>text.replace(/\r\n/g, "\n")\<close>\<close>
  "replaceCRLF [] = []"
| "replaceCRLF [c] = [c]"
| "replaceCRLF (c # d # cs) =
     (if c = CR \<and> d = LF then LF # replaceCRLF cs else c # replaceCRLF (d # cs))"

definition normalizeNewlines :: "string \<Rightarrow> string" where
  \<comment> \<open>utils.ts: \<^verbatim>\<open>value.replace(/\r\n/g, "\n").replace(/\r/g, "\n").replace(/\u0000/g, "")\<close>\<close>
  "normalizeNewlines v =
     filter (\<lambda>c. c \<noteq> CHR 0x00) (map (\<lambda>c. if c = CR then LF else c) (replaceCRLF v))"

fun join :: "string \<Rightarrow> string list \<Rightarrow> string" where
  \<comment> \<open>\<^verbatim>\<open>Array.prototype.join\<close> on an array of strings\<close>
  "join sep [] = []"
| "join sep [x] = x"
| "join sep (x # y # ys) = x @ sep @ join sep (y # ys)"

section \<open>Conversation packets (payloads.ts) and chunks (buildChunksFromFiles)\<close>

record RoleContentMessage =
  role :: string
  content :: string

record PacketBuildOptions =
  maxMessagesPerConversation :: int
  maxCharsPerConversation :: int

record ConversationPacket =
  conversationId :: string
  transcript :: string
  messagesUsed :: int
  charCount :: int

text \<open>
  The loop of \<^verbatim>\<open>buildConversationPacket\<close>: the accumulator is
  \<^verbatim>\<open>(lines, charCount, used)\<close>; a \<^verbatim>\<open>break\<close> returns it, a
  \<^verbatim>\<open>continue\<close> goes on with the rest of the messages.
\<close>

fun packetLoop :: "int \<Rightarrow> int \<Rightarrow> RoleContentMessage list \<Rightarrow> string list \<times> int \<times> int
    \<Rightarrow> string list \<times> int \<times> int" where
  "packetLoop maxMessages maxChars [] acc = acc"
| "packetLoop maxMessages maxChars (m # ms) (lines, cnt, used) =
     (if maxMessages > 0 \<and> used \<ge> maxMessages then (lines, cnt, used)
      else let c = normalizeNewlines (content m) in
        if length c = 0 then packetLoop maxMessages maxChars ms (lines, cnt, used)
        else let line = ''['' @ role m @ ''] '' @ c in
          if maxChars > 0 \<and> cnt + int (length line) > maxChars then (lines, cnt, used)
          else packetLoop maxMessages maxChars ms
                 (lines @ [line], cnt + int (length line), used + 1))"

definition buildConversationPacket ::
    "string \<Rightarrow> RoleContentMessage list \<Rightarrow> PacketBuildOptions \<Rightarrow> ConversationPacket" where
  "buildConversationPacket cid messages opts =
     (case packetLoop (maxMessagesPerConversation opts) (maxCharsPerConversation opts)
             messages ([], 0, 0) of
        (lines, cnt, used) \<Rightarrow>
          \<lparr>conversationId = cid, transcript = join [LF] lines,
           messagesUsed = used, charCount = cnt\<rparr>)"

record ConversationScore =
  fileName :: string
  filePath :: string
  assistantChars :: int
  assistantTurns :: int
  turns :: int

record ConversationChunk =
  chunkConversationId :: string
  sourceFile :: string
  sourcePath :: string
  chunkTranscript :: string
  chunkMessagesUsed :: int
  chunkCharCount :: int
  tokenEstimate :: int

record ChunkOptions =
  optMaxMessages :: int
  optMaxChars :: int
  optMaxTotalChars :: int

text \<open>
  A thrown \<^verbatim>\<open>Error\<close> by its \<^verbatim>\<open>name\<close> (\<^verbatim>\<open>AbortError\<close>, \<^verbatim>\<open>TimeoutError\<close>, or any other)
  with its message.
\<close>

datatype error = AbortError string | TimeoutError string | OtherError string

definition estimateTokens :: "string \<Rightarrow> int" where
  \<comment> \<open>\<^verbatim>\<open>Math.max(1, Math.ceil(text.length / 4))\<close>, 0 on the empty string\<close>
  "estimateTokens text = (if text = [] then 0 else max 1 ((int (length text) + 3) div 4))"

definition perConversationCharBudget :: "ChunkOptions \<Rightarrow> nat \<Rightarrow> int" where
  \<comment> \<open>The three constants computed before the loop of \<^verbatim>\<open>buildChunksFromFiles\<close>;
      \<^verbatim>\<open>n\<close> is \<^verbatim>\<open>files.length\<close>. \<^verbatim>\<open>Number.MAX_SAFE_INTEGER\<close> is \<open>2^53 - 1\<close>.\<close>
  "perConversationCharBudget opts n =
     (let hasTotalCap = optMaxTotalChars opts > 0;
          totalCap = (if hasTotalCap then max 1 (optMaxTotalChars opts) else 2 ^ 53 - 1);
          perConversationCapFromTotal =
            (if hasTotalCap then max 1 (totalCap div max 1 (int n)) else 2 ^ 53 - 1)
      in if optMaxChars opts > 0
         then max 1 (min (optMaxChars opts) perConversationCapFromTotal)
         else perConversationCapFromTotal)"

text \<open>
  \<^verbatim>\<open>buildChunksFromFiles\<close> reads each file through the pipeline it is given and checks the
  abort signal at the head of every iteration. The file system is the function
  \<open>readFile\<close> (the messages \<^verbatim>\<open>readExtractedConversationFile\<close> returns for a path),
  \<open>idOf\<close> is \<^verbatim>\<open>conversationIdFromFile\<close>, and \<open>aborted i\<close> tells whether the signal
  is aborted when iteration \<open>i\<close> starts.
\<close>

fun chunkLoop :: "(string \<Rightarrow> RoleContentMessage list) \<Rightarrow> (string \<Rightarrow> string) \<Rightarrow> (nat \<Rightarrow> bool)
    \<Rightarrow> ChunkOptions \<Rightarrow> int \<Rightarrow> nat \<Rightarrow> ConversationScore list \<Rightarrow> ConversationChunk list
    \<Rightarrow> error + ConversationChunk list" where
  "chunkLoop readFile idOf aborted opts budget i [] out = Inr out"
| "chunkLoop readFile idOf aborted opts budget i (file # files) out =
     (if aborted i then Inl (AbortError ''Generation cancelled by user.'')
      else let packet = buildConversationPacket (idOf (filePath file)) (readFile (filePath file))
                  \<lparr>maxMessagesPerConversation = optMaxMessages opts,
                   maxCharsPerConversation = budget\<rparr>;
               trimmedTranscript = trim (transcript packet)
        in if messagesUsed packet \<le> 0 \<or> length trimmedTranscript = 0
           then chunkLoop readFile idOf aborted opts budget (Suc i) files out
           else let safeTranscript = take (nat budget) (transcript packet);
                    safeCharCount = min (charCount packet)
                                      (min (int (length safeTranscript)) budget)
             in if safeCharCount \<le> 0 \<or> length (trim safeTranscript) = 0
                then chunkLoop readFile idOf aborted opts budget (Suc i) files out
                else chunkLoop readFile idOf aborted opts budget (Suc i) files
                       (out @ [\<lparr>chunkConversationId = conversationId packet,
                                sourceFile = fileName file,
                                sourcePath = filePath file,
                                chunkTranscript = safeTranscript,
                                chunkMessagesUsed = messagesUsed packet,
                                chunkCharCount = safeCharCount,
                                tokenEstimate = estimateTokens safeTranscript\<rparr>]))"

definition buildChunksFromFiles :: "(string \<Rightarrow> RoleContentMessage list) \<Rightarrow> (string \<Rightarrow> string)
    \<Rightarrow> (nat \<Rightarrow> bool) \<Rightarrow> ConversationScore list \<Rightarrow> ChunkOptions
    \<Rightarrow> error + ConversationChunk list" where
  "buildChunksFromFiles readFile idOf aborted files opts =
     chunkLoop readFile idOf aborted opts (perConversationCharBudget opts (length files)) 0 files []"

text \<open>What the packet-budget property says of one emitted chunk.\<close>

definition chunk_ok :: "int \<Rightarrow> int \<Rightarrow> ConversationChunk \<Rightarrow> bool" where
  "chunk_ok M budget p \<longleftrightarrow> chunkCharCount p \<le> budget \<and> chunkMessagesUsed p \<le> M
     \<and> 0 < chunkMessagesUsed p \<and> trim (chunkTranscript p) \<noteq> []"

text \<open>A concrete run: one file of two messages, of which the budget admits the first.\<close>

definition demoOpts :: ChunkOptions where
  "demoOpts = \<lparr>optMaxMessages = 2, optMaxChars = 12, optMaxTotalChars = 100\<rparr>"

definition demoFile :: ConversationScore where
  "demoFile = \<lparr>fileName = ''a.jsonl'', filePath = ''/d/a.jsonl'', assistantChars = 2,
     assistantTurns = 1, turns = 2\<rparr>"

definition demoMessages :: "RoleContentMessage list" where
  "demoMessages = [\<lparr>role = ''user'', content = ''hello''\<rparr>, \<lparr>role = ''assistant'', content = ''hi''\<rparr>]"

definition demoChunk :: ConversationChunk where
  "demoChunk = \<lparr>chunkConversationId = ''a'', sourceFile = ''a.jsonl'', sourcePath = ''/d/a.jsonl'',
     chunkTranscript = ''[user] hello'', chunkMessagesUsed = 1, chunkCharCount = 12,
     tokenEstimate = 3\<rparr>"

section \<open>JavaScript values\<close>

text \<open>
  The values the code reads from parsed JSON and from property access. Finite numbers are
  the integers (the spec types priorities as integers); \<open>JNaN\<close> is \<^verbatim>\<open>NaN\<close>. An object is
  the list of its own properties in insertion order.
\<close>

datatype jsval =
    JUndef | JNull | JBool bool | JNum int | JNaN | JStr string
  | JArr "jsval list" | JObj "(string \<times> jsval) list"

definition toLowerChar :: "char \<Rightarrow> char" where
  \<comment> \<open>\<^verbatim>\<open>toLowerCase\<close> on one code unit below U+0100: A-Z and the capitals U+00C0 to U+00DE
      (without U+00D7) move up by 0x20, which sets bit 5.\<close>
  "toLowerChar c =
     (let n = (of_char c :: nat) in
      if (65 \<le> n \<and> n \<le> 90) \<or> (192 \<le> n \<and> n \<le> 222 \<and> n \<noteq> 215)
      then (case c of Char b0 b1 b2 b3 b4 b5 b6 b7 \<Rightarrow> Char b0 b1 b2 b3 b4 True b6 b7)
      else c)"

definition toLowerCase :: "string \<Rightarrow> string" where
  "toLowerCase s = map toLowerChar s"

fun collapseSpaces :: "bool \<Rightarrow> string \<Rightarrow> string" where
  \<comment> \<open>\<^verbatim>\<open>text.replace(/\s+/g, " ")\<close>; the flag says that the scan is inside a run of spaces.\<close>
  "collapseSpaces inRun [] = []"
| "collapseSpaces inRun (c # cs) =
     (if isSpace c then (if inRun then collapseSpaces True cs else CHR '' '' # collapseSpaces True cs)
      else c # collapseSpaces False cs)"

fun showNat :: "nat \<Rightarrow> string" where
  \<comment> \<open>the decimal digits of a template literal \<^verbatim>\<open>${n}\<close>\<close>
  "showNat n = (if n < 10 then [''0123456789'' ! n]
                else showNat (n div 10) @ [''0123456789'' ! (n mod 10)])"

declare showNat.simps [simp del]

fun uniqueFrom :: "'a list \<Rightarrow> 'a list \<Rightarrow> 'a list" where
  \<comment> \<open>\<^verbatim>\<open>[...new Set(xs)]\<close>: the elements in the order of their first occurrence;
      the first argument holds what the set already contains.\<close>
  "uniqueFrom seen [] = []"
| "uniqueFrom seen (x # xs) =
     (if x \<in> set seen then uniqueFrom seen xs else x # uniqueFrom (seen @ [x]) xs)"

section \<open>Memory compaction (compactMemories)\<close>

definition safeText :: "jsval \<Rightarrow> string" where
  "safeText v = (case v of JStr s \<Rightarrow> replaceCRLF s | _ \<Rightarrow> [])"

definition safeString :: "jsval \<Rightarrow> string \<Rightarrow> string" where
  "safeString v defaultValue = (let text = trim (safeText v) in if text = [] then defaultValue else text)"

fun stringsOf :: "jsval list \<Rightarrow> string list" where
  \<comment> \<open>\<^verbatim>\<open>value.filter((row) => typeof row === "string")\<close>\<close>
  "stringsOf [] = []"
| "stringsOf (JStr s # vs) = s # stringsOf vs"
| "stringsOf (v # vs) = stringsOf vs"

definition toStringArray :: "jsval \<Rightarrow> string list" where
  "toStringArray v =
     (case v of JArr rows \<Rightarrow> filter (\<lambda>row. length row > 0) (map trim (stringsOf rows)) | _ \<Rightarrow> [])"

fun strictDigits :: "string \<Rightarrow> int \<Rightarrow> int option" where
  "strictDigits [] acc = Some acc"
| "strictDigits (c # cs) acc =
     (let n = (of_char c :: nat) in
      if 48 \<le> n \<and> n \<le> 57 then strictDigits cs (10 * acc + int (n - 48)) else None)"

definition stringToNumber :: "string \<Rightarrow> jsval" where
  \<comment> \<open>\<^verbatim>\<open>Number(s)\<close> on a string in plain decimal integer notation, on a blank string (0) and
      on a string that is no numeric literal (\<^verbatim>\<open>NaN\<close>). Literals with a fraction, an
      exponent or a radix prefix and \<^verbatim>\<open>Infinity\<close> denote numbers outside the integers of
      this model and are not covered (they read as \<^verbatim>\<open>NaN\<close> here); nor is the rounding of
      integers beyond \<^verbatim>\<open>2^53\<close>.\<close>
  "stringToNumber s =
     (case trim s of
        [] \<Rightarrow> JNum 0
      | c # cs \<Rightarrow>
          (if c = CHR ''-'' \<and> cs \<noteq> [] then (case strictDigits cs 0 of Some n \<Rightarrow> JNum (- n) | None \<Rightarrow> JNaN)
           else if c = CHR ''+'' \<and> cs \<noteq> [] then (case strictDigits cs 0 of Some n \<Rightarrow> JNum n | None \<Rightarrow> JNaN)
           else (case strictDigits (c # cs) 0 of Some n \<Rightarrow> JNum n | None \<Rightarrow> JNaN)))"

fun toNumber :: "jsval \<Rightarrow> jsval" where
  \<comment> \<open>\<^verbatim>\<open>Number(v)\<close>. An array converts through its string: the empty array is 0, a
      one-element array converts as its element does (\<^verbatim>\<open>null\<close> and \<^verbatim>\<open>undefined\<close> print
      as the empty string), a longer one prints with commas and is \<^verbatim>\<open>NaN\<close>.\<close>
  "toNumber JUndef = JNaN"
| "toNumber JNull = JNum 0"
| "toNumber (JBool b) = JNum (if b then 1 else 0)"
| "toNumber (JNum n) = JNum n"
| "toNumber JNaN = JNaN"
| "toNumber (JStr s) = stringToNumber s"
| "toNumber (JArr []) = JNum 0"
| "toNumber (JArr [v]) =
     (case v of JUndef \<Rightarrow> JNum 0 | JNull \<Rightarrow> JNum 0 | JBool b \<Rightarrow> JNaN | JObj ps \<Rightarrow> JNaN
      | _ \<Rightarrow> toNumber v)"
| "toNumber (JArr (v # w # vs)) = JNaN"
| "toNumber (JObj ps) = JNaN"

definition nullish :: "jsval \<Rightarrow> jsval \<Rightarrow> jsval" where
  \<comment> \<open>\<^verbatim>\<open>v ?? d\<close>\<close>
  "nullish v d = (if v = JUndef \<or> v = JNull then d else v)"

definition isFinite :: "jsval \<Rightarrow> bool" where
  \<comment> \<open>\<^verbatim>\<open>Number.isFinite\<close>\<close>
  "isFinite v = (case v of JNum n \<Rightarrow> True | _ \<Rightarrow> False)"

definition numGreater :: "jsval \<Rightarrow> jsval \<Rightarrow> bool" where
  \<comment> \<open>\<^verbatim>\<open>a > b\<close> on two numbers; false when either is \<^verbatim>\<open>NaN\<close>\<close>
  "numGreater a b = (case (a, b) of (JNum x, JNum y) \<Rightarrow> x > y | _ \<Rightarrow> False)"

record MemoryCandidate =
  mName :: jsval
  mKeys :: jsval
  mContent :: jsval
  mCategory :: jsval
  mPriority :: jsval
  mSourceConversation :: jsval
  mSourceDate :: jsval

definition normalize :: "string \<Rightarrow> string" where
  \<comment> \<open>\<^verbatim>\<open>text.toLowerCase().replace(/\s+/g, " ").trim()\<close>\<close>
  "normalize text = trim (collapseSpaces False (toLowerCase text))"

definition dedupSignature :: "string \<Rightarrow> string list \<Rightarrow> string" where
  "dedupSignature contentText keys = normalize contentText @ ''|'' @ join ''|'' (map toLowerCase keys)"

definition existingSignature :: "MemoryCandidate \<Rightarrow> string" where
  "existingSignature item = dedupSignature (safeString (mContent item) []) (toStringArray (mKeys item))"

fun findIndex :: "('a \<Rightarrow> bool) \<Rightarrow> 'a list \<Rightarrow> nat option" where
  \<comment> \<open>the position of the element \<^verbatim>\<open>Array.prototype.find\<close> returns\<close>
  "findIndex P [] = None"
| "findIndex P (x # xs) = (if P x then Some 0 else map_option Suc (findIndex P xs))"

definition mergeInto :: "MemoryCandidate \<Rightarrow> MemoryCandidate \<Rightarrow> MemoryCandidate" where
  \<comment> \<open>the branch \<^verbatim>\<open>if (existing) { ... }\<close>: the three assignments to \<^verbatim>\<open>existing\<close>\<close>
  "mergeInto existing candidate =
     (let contentText = safeString (mContent candidate) [];
          keys = toStringArray (mKeys candidate);
          e1 = existing\<lparr>mKeys := JArr (map JStr (uniqueFrom [] (toStringArray (mKeys existing) @ keys)))\<rparr>;
          existingPriority = toNumber (nullish (mPriority e1) (JNum 0));
          priority = toNumber (nullish (mPriority candidate) (JNum 0));
          e2 = (if isFinite priority \<and> numGreater priority existingPriority
                then e1\<lparr>mPriority := priority\<rparr> else e1)
      in if length contentText > length (safeString (mContent e2) [])
         then e2\<lparr>mContent := JStr contentText\<rparr> else e2)"

definition memoryName :: "nat \<Rightarrow> string" where
  \<comment> \<open>the template literal \<^verbatim>\<open>`Memory ${n}`\<close>\<close>
  "memoryName n = ''Memory '' @ showNat n"

definition newEntry :: "nat \<Rightarrow> MemoryCandidate \<Rightarrow> MemoryCandidate" where
  \<comment> \<open>the object pushed when no entry has the signature; \<open>n\<close> is \<^verbatim>\<open>out.length\<close>\<close>
  "newEntry n candidate =
     \<lparr>mName = JStr (safeString (mName candidate) (memoryName (n + 1))),
      mKeys = JArr (map JStr (toStringArray (mKeys candidate))),
      mContent = JStr (safeString (mContent candidate) []),
      mCategory = JStr (safeString (mCategory candidate) ''shared_memory''),
      mPriority = toNumber (nullish (mPriority candidate) (JNum 0)),
      mSourceConversation = JStr (safeString (mSourceConversation candidate) []),
      mSourceDate = JStr (safeString (mSourceDate candidate) [])\<rparr>"

definition compactStep :: "MemoryCandidate list \<Rightarrow> MemoryCandidate \<Rightarrow> MemoryCandidate list" where
  \<comment> \<open>one iteration of \<^verbatim>\<open>for (const candidate of candidates)\<close>\<close>
  "compactStep out candidate =
     (let contentText = safeString (mContent candidate) [];
          keys = toStringArray (mKeys candidate)
      in if contentText = [] \<or> length keys = 0 then out
         else case findIndex (\<lambda>item. existingSignature item = dedupSignature contentText keys) out of
                Some i \<Rightarrow> out[i := mergeInto (out ! i) candidate]
              | None \<Rightarrow> out @ [newEntry (length out) candidate])"

definition compactMemories :: "MemoryCandidate list \<Rightarrow> MemoryCandidate list" where
  "compactMemories candidates = foldl compactStep [] candidates"

text \<open>
  Predicates for the verification of the compactor: a string is \<open>trimmed\<close> when
  \<^verbatim>\<open>trim\<close> leaves it alone; \<open>containsCRLF\<close> finds a CR LF pair; a candidate is
  \<open>crlfStable\<close> when the one replacement pass of \<^verbatim>\<open>safeString\<close> leaves no such pair
  in its string fields (a text with CR LF line ends is, \<^verbatim>\<open>a\r\r\nb\<close> is not);
  \<open>shapedEntry\<close> describes the objects \<^verbatim>\<open>compactMemories\<close> builds (every field a
  value of the type the code assigns to it).
\<close>

definition trimmed :: "string \<Rightarrow> bool" where
  "trimmed s \<longleftrightarrow> s = [] \<or> (\<not> isSpace (hd s) \<and> \<not> isSpace (last s))"

fun containsCRLF :: "string \<Rightarrow> bool" where
  "containsCRLF [] = False"
| "containsCRLF [c] = False"
| "containsCRLF (c # d # cs) = ((c = CR \<and> d = LF) \<or> containsCRLF (d # cs))"

definition textOf :: "jsval \<Rightarrow> string" where
  "textOf v = (case v of JStr s \<Rightarrow> s | _ \<Rightarrow> [])"

definition crlfFree :: "MemoryCandidate \<Rightarrow> bool" where
  "crlfFree e \<longleftrightarrow> \<not> containsCRLF (textOf (mName e)) \<and> \<not> containsCRLF (textOf (mContent e))
     \<and> \<not> containsCRLF (textOf (mCategory e)) \<and> \<not> containsCRLF (textOf (mSourceConversation e))
     \<and> \<not> containsCRLF (textOf (mSourceDate e))"

definition stableText :: "jsval \<Rightarrow> bool" where
  \<comment> \<open>one pass of \<^verbatim>\<open>replace(/\r\n/g, "\n")\<close> leaves no CR LF pair in the text\<close>
  "stableText v \<longleftrightarrow> \<not> containsCRLF (safeText v)"

definition crlfStable :: "MemoryCandidate \<Rightarrow> bool" where
  "crlfStable c \<longleftrightarrow> stableText (mName c) \<and> stableText (mContent c) \<and> stableText (mCategory c)
     \<and> stableText (mSourceConversation c) \<and> stableText (mSourceDate c)"

definition shapedKeys :: "jsval \<Rightarrow> string list \<Rightarrow> bool" where
  "shapedKeys v ks \<longleftrightarrow> v = JArr (map JStr ks) \<and> ks \<noteq> [] \<and> (\<forall>k \<in> set ks. k \<noteq> [] \<and> trimmed k)"

definition shapedEntry :: "MemoryCandidate \<Rightarrow> bool" where
  "shapedEntry e \<longleftrightarrow>
     (\<exists>n. mName e = JStr n \<and> n \<noteq> [] \<and> trimmed n) \<and>
     (\<exists>ks. shapedKeys (mKeys e) ks) \<and>
     (\<exists>c. mContent e = JStr c \<and> c \<noteq> [] \<and> trimmed c) \<and>
     (\<exists>g. mCategory e = JStr g \<and> g \<noteq> [] \<and> trimmed g) \<and>
     (mPriority e = JNaN \<or> (\<exists>p. mPriority e = JNum p)) \<and>
     (\<exists>s. mSourceConversation e = JStr s \<and> trimmed s) \<and>
     (\<exists>d. mSourceDate e = JStr d \<and> trimmed d)"

definition memA :: MemoryCandidate where
  "memA = \<lparr>mName = JStr ''Trip'', mKeys = JArr [JStr ''Paris''], mContent = JStr ''Paris trip'',
     mCategory = JStr ''shared_memory'', mPriority = JNum 1, mSourceConversation = JStr [],
     mSourceDate = JStr []\<rparr>"

definition memB :: MemoryCandidate where
  "memB = \<lparr>mName = JStr ''Trip again'', mKeys = JArr [JStr ''paris''], mContent = JStr ''paris  trip'',
     mCategory = JStr ''shared_memory'', mPriority = JNum 5, mSourceConversation = JStr ''conv-2'',
     mSourceDate = JStr ''2024-05-01''\<rparr>"

definition memAB :: MemoryCandidate where
  "memAB = \<lparr>mName = JStr ''Trip'', mKeys = JArr [JStr ''Paris'', JStr ''paris''],
     mContent = JStr ''paris  trip'', mCategory = JStr ''shared_memory'', mPriority = JNum 5,
     mSourceConversation = JStr [], mSourceDate = JStr []\<rparr>"

definition plain :: "string \<Rightarrow> string list \<Rightarrow> MemoryCandidate" where
  "plain contentText ks = \<lparr>mName = JStr ''m'', mKeys = JArr (map JStr ks), mContent = JStr contentText,
     mCategory = JStr ''shared_memory'', mPriority = JNum 1, mSourceConversation = JStr [],
     mSourceDate = JStr []\<rparr>"

definition crText :: string where
  \<comment> \<open>\<^verbatim>\<open>"a\r\r\nb"\<close>\<close>
  "crText = [CHR ''a'', CR, CR, LF, CHR ''b'']"

definition pipeKeys :: "MemoryCandidate list" where
  "pipeKeys = [plain ''x'' [''a|b''], plain ''x'' [''a|b'', ''a'', ''b''], plain ''x'' [''a'', ''b'']]"

definition repeatedKey :: "MemoryCandidate list" where
  "repeatedKey = [plain ''x'' [''a'', ''a''], plain ''x'' [''a''], plain ''x'' [''a'', ''a'']]"

definition parisTwice :: "MemoryCandidate list" where
  "parisTwice = [plain ''Paris trip'' [''paris''], plain (''paris '' @ [CR, LF] @ ''trip'') [''paris''],
     plain ''Rome'' [''rome'']]"

definition notText :: MemoryCandidate where
  "notText = \<lparr>mName = JStr ''n'', mKeys = JArr [JNum 1, JNull], mContent = JNum 3,
     mCategory = JUndef, mPriority = JUndef, mSourceConversation = JUndef, mSourceDate = JUndef\<rparr>"

section \<open>Primary model (extraction.ts, choosePrimaryModel)\<close>

text \<open>
  \<^verbatim>\<open>String.prototype.localeCompare\<close> is the host's collation, not code of the repository:
  \<^verbatim>\<open>choosePrimaryModel\<close> takes it as the parameter \<open>localeCompare\<close>. \<open>counts\<close> is the
  \<^verbatim>\<open>Map\<close> of message counts.
\<close>

definition countOf :: "(string \<rightharpoonup> int) \<Rightarrow> string \<Rightarrow> int" where
  \<comment> \<open>\<^verbatim>\<open>counts.get(model) ?? 0\<close>\<close>
  "countOf counts model = (case counts model of Some n \<Rightarrow> n | None \<Rightarrow> 0)"

definition primaryStep :: "(string \<Rightarrow> string \<Rightarrow> int) \<Rightarrow> (string \<rightharpoonup> int) \<Rightarrow> string \<times> int \<Rightarrow> string
    \<Rightarrow> string \<times> int" where
  \<comment> \<open>one iteration of \<^verbatim>\<open>for (const model of models.slice(1))\<close> on \<^verbatim>\<open>(best, bestCount)\<close>\<close>
  "primaryStep localeCompare counts acc model =
     (case acc of (best, bestCount) \<Rightarrow>
        let count = countOf counts model in
        if count > bestCount then (model, count)
        else if count = bestCount \<and> localeCompare model best > 0 then (model, count)
        else (best, bestCount))"

definition choosePrimaryModel :: "(string \<Rightarrow> string \<Rightarrow> int) \<Rightarrow> string list \<Rightarrow> (string \<rightharpoonup> int)
    \<Rightarrow> error + string" where
  \<comment> \<open>\<^verbatim>\<open>if (!first)\<close> holds for the empty list and for a list whose first name is the
      empty string.\<close>
  "choosePrimaryModel localeCompare models counts =
     (case models of
        [] \<Rightarrow> Inl (OtherError ''Cannot choose primary model from an empty list'')
      | first # rest \<Rightarrow>
          if first = [] then Inl (OtherError ''Cannot choose primary model from an empty list'')
          else Inr (fst (foldl (primaryStep localeCompare counts) (first, countOf counts first) rest)))"

definition collation :: "(string \<Rightarrow> string \<Rightarrow> int) \<Rightarrow> bool" where
  \<comment> \<open>what the proof needs of a comparison function: it is reflexive, transitive, and
      positive exactly when its converse is negative\<close>
  "collation cmp \<longleftrightarrow> (\<forall>a. cmp a a = 0) \<and> (\<forall>a b. cmp a b > 0 \<longleftrightarrow> cmp b a < 0)
     \<and> (\<forall>a b c. cmp a b \<le> 0 \<and> cmp b c \<le> 0 \<longrightarrow> cmp a c \<le> 0)"

text \<open>
  The collation of the host on strings of ASCII letters and digits (the root collation of
  the Unicode Collation Algorithm, which \<^verbatim>\<open>localeCompare\<close> uses without a tailoring): the
  strings are compared by their primary weights, digits before letters and letters in
  alphabetical order whatever their case; strings that agree there are compared by case,
  lower case first. The fragment is exact on letters and digits. Other code units come
  before the digits, as white space and punctuation do in the root collation; among
  themselves they are ordered by their number, which is not the order of that collation.
\<close>

definition primaryWeight :: "char \<Rightarrow> nat" where
  "primaryWeight c =
     (let n = (of_char c :: nat) in
      if 48 \<le> n \<and> n \<le> 57 then 256 + (n - 48)
      else if 65 \<le> n \<and> n \<le> 90 then 256 + (n - 55)
      else if 97 \<le> n \<and> n \<le> 122 then 256 + (n - 87)
      else n)"

definition caseWeight :: "char \<Rightarrow> nat" where
  "caseWeight c = (let n = (of_char c :: nat) in if 65 \<le> n \<and> n \<le> 90 then 1 else 0)"

fun compareWeights :: "nat list \<Rightarrow> nat list \<Rightarrow> int" where
  "compareWeights [] [] = 0"
| "compareWeights [] (y # ys) = - 1"
| "compareWeights (x # xs) [] = 1"
| "compareWeights (x # xs) (y # ys) =
     (if x < y then - 1 else if y < x then 1 else compareWeights xs ys)"

definition localeCompareAscii :: "string \<Rightarrow> string \<Rightarrow> int" where
  "localeCompareAscii a b =
     (let p = compareWeights (map primaryWeight a) (map primaryWeight b)
      in if p \<noteq> 0 then p else compareWeights (map caseWeight a) (map caseWeight b))"

section \<open>Prompt templates (fillPromptTemplate)\<close>

fun showInt :: "int \<Rightarrow> string" where
  "showInt n = (if n < 0 then CHR ''-'' # showNat (nat (- n)) else showNat (nat n))"

fun toStr :: "jsval \<Rightarrow> string" where
  \<comment> \<open>\<^verbatim>\<open>String(v)\<close>; an array prints its elements with commas, \<^verbatim>\<open>null\<close> and
      \<^verbatim>\<open>undefined\<close> among them as the empty string.\<close>
  "toStr JUndef = ''undefined''"
| "toStr JNull = ''null''"
| "toStr (JBool b) = (if b then ''true'' else ''false'')"
| "toStr (JNum n) = showInt n"
| "toStr JNaN = ''NaN''"
| "toStr (JStr s) = s"
| "toStr (JArr vs) = join '','' (map (\<lambda>v. if v = JUndef \<or> v = JNull then [] else toStr v) vs)"
| "toStr (JObj ps) = ''[object Object]''"

fun getSubstitution :: "string \<Rightarrow> string \<Rightarrow> string \<Rightarrow> string \<Rightarrow> string" where
  \<comment> \<open>The replacement text of \<^verbatim>\<open>replaceAll\<close> for one match of a string pattern (no capture
      groups): \<^verbatim>\<open>$$\<close> is a dollar sign, \<^verbatim>\<open>$&\<close> the match, \<^verbatim>\<open>$`\<close> the text before the
      match and \<^verbatim>\<open>$'\<close> the text after it; any other dollar sign stands for itself.\<close>
  "getSubstitution matched pre post [] = []"
| "getSubstitution matched pre post [c] = [c]"
| "getSubstitution matched pre post (c # d # cs) =
     (if c = CHR ''$'' then
        (if d = CHR ''$'' then CHR ''$'' # getSubstitution matched pre post cs
         else if d = CHR ''&'' then matched @ getSubstitution matched pre post cs
         else if d = CHR 0x60 then pre @ getSubstitution matched pre post cs
         else if d = CHR 0x27 then post @ getSubstitution matched pre post cs
         else c # getSubstitution matched pre post (d # cs))
      else c # getSubstitution matched pre post (d # cs))"

function replaceAllFrom :: "string \<Rightarrow> string \<Rightarrow> string \<Rightarrow> string \<Rightarrow> string" where
  \<comment> \<open>\<^verbatim>\<open>String.prototype.replaceAll\<close> with a string pattern, from the position where
      \<open>before\<close> ends: the matches are found from left to right and do not overlap; the
      empty pattern matches before every code unit and at the end.\<close>
  "replaceAllFrom pat rep pre rest =
     (if pat = [] then
        getSubstitution [] pre rest rep @
          (case rest of [] \<Rightarrow> [] | c # cs \<Rightarrow> c # replaceAllFrom pat rep (pre @ [c]) cs)
      else if rest = [] then []
      else if prefix pat rest then
        getSubstitution pat pre (drop (length pat) rest) rep @
          replaceAllFrom pat rep (pre @ pat) (drop (length pat) rest)
      else hd rest # replaceAllFrom pat rep (pre @ [hd rest]) (tl rest))"
  by pat_completeness auto
termination
  by (relation "measure (\<lambda>(pat, rep, pre, rest). length rest)") auto

declare replaceAllFrom.simps [simp del]

definition replaceAll :: "string \<Rightarrow> string \<Rightarrow> string \<Rightarrow> string" where
  "replaceAll text pat rep = replaceAllFrom pat rep [] text"

definition fillPromptTemplate :: "string \<Rightarrow> (string \<times> jsval) list \<Rightarrow> string" where
  \<comment> \<open>\<open>values\<close> is \<^verbatim>\<open>Object.entries(values)\<close>\<close>
  "fillPromptTemplate template values =
     foldl (\<lambda>text (key, rawValue).
              replaceAll text (''{'' @ key @ ''}'') (toStr (nullish rawValue (JStr []))))
       template values"

definition placeholderNames :: "string set" where
  "placeholderNames = {''companion_name'', ''conversation_id'', ''transcript'',
     ''observation_packets'', ''candidate_memories'', ''max_memories''}"

definition outputTokens :: "string set" where
  "outputTokens = {''{{user}}'', ''{{char}}''}"

definition weave :: "(string \<times> string) list \<Rightarrow> string \<Rightarrow> string" where
  \<comment> \<open>a text laid out as stretches of text, each followed by a token, and a last stretch\<close>
  "weave ps end = concat (map (\<lambda>(s, t). s @ t) ps) @ end"

text \<open>What the proof needs of a placeholder name: no brace in it, and it is not the inside of a token.\<close>

definition safeKey :: "string \<Rightarrow> bool" where
  "safeKey key \<longleftrightarrow> CHR ''{'' \<notin> set key \<and> CHR ''}'' \<notin> set key \<and> key \<noteq> ''user'' \<and> key \<noteq> ''char''"

section \<open>HTTP retry (fetchJsonWithRetry)\<close>

definition RETRY_MARKERS :: "string list" where
  "RETRY_MARKERS = [''429'', ''500'', ''502'', ''503'', ''504'', ''too many requests'', ''rate limit'',
     ''overloaded'', ''temporarily unavailable'', ''service unavailable'', ''timeout'', ''timed out'',
     ''connection reset'', ''try again later'']"

fun includesText :: "string \<Rightarrow> string \<Rightarrow> bool" where
  \<comment> \<open>\<^verbatim>\<open>text.includes(marker)\<close>\<close>
  "includesText [] marker = (marker = [])"
| "includesText (c # cs) marker = (prefix marker (c # cs) \<or> includesText cs marker)"

definition toErrorMessage :: "error \<Rightarrow> string" where
  "toErrorMessage e = (case e of AbortError m \<Rightarrow> m | TimeoutError m \<Rightarrow> m | OtherError m \<Rightarrow> m)"

definition isRetryableError :: "error \<Rightarrow> bool" where
  "isRetryableError e =
     (let text = toLowerCase (toErrorMessage e) in list_ex (\<lambda>marker. includesText text marker) RETRY_MARKERS)"

definition isAbortError :: "error \<Rightarrow> bool" where
  \<comment> \<open>\<^verbatim>\<open>error.name === "AbortError"\<close>\<close>
  "isAbortError e = (case e of AbortError m \<Rightarrow> True | _ \<Rightarrow> False)"

definition isTimeoutError :: "error \<Rightarrow> bool" where
  \<comment> \<open>\<^verbatim>\<open>error.name === "TimeoutError"\<close>\<close>
  "isTimeoutError e = (case e of TimeoutError m \<Rightarrow> True | _ \<Rightarrow> False)"

text \<open>
  The world of one call: \<open>fetchJson k\<close> is what attempt \<open>k\<close> of \<^verbatim>\<open>fetchJson\<close> returns or
  throws, \<open>aborted k\<close> whether the caller's signal is aborted when the error of attempt
  \<open>k\<close> is caught, and \<open>random k\<close> the value \<^verbatim>\<open>Math.random()\<close> gives after attempt \<open>k\<close>.
  The loop returns the result, the number of the last attempt and the backoff delays, in
  seconds, in the order they were slept.
\<close>

function retryLoop :: "(nat \<Rightarrow> error + 'a) \<Rightarrow> (nat \<Rightarrow> bool) \<Rightarrow> (nat \<Rightarrow> real) \<Rightarrow> nat \<Rightarrow> nat
    \<Rightarrow> real list \<Rightarrow> (error + 'a) \<times> nat \<times> real list" where
  "retryLoop fetchJson aborted random maxAttempts attempt delays =
     (case fetchJson attempt of
        Inr v \<Rightarrow> (Inr v, attempt, delays)
      | Inl e \<Rightarrow>
          if aborted attempt \<or> isAbortError e then (Inl e, attempt, delays)
          else if isTimeoutError e then (Inl e, attempt, delays)
          else if attempt \<ge> maxAttempts \<or> \<not> isRetryableError e then (Inl e, attempt, delays)
          else let backoffSeconds = min 45 (2 ^ (attempt - 1) + random attempt)
               in retryLoop fetchJson aborted random maxAttempts (attempt + 1)
                    (delays @ [backoffSeconds]))"
  by pat_completeness auto
termination
  by (relation "measure (\<lambda>(fetchJson, aborted, random, maxAttempts, attempt, delays).
        maxAttempts - attempt)") auto

declare retryLoop.simps [simp del]

definition fetchJsonWithRetry :: "(nat \<Rightarrow> error + 'a) \<Rightarrow> (nat \<Rightarrow> bool) \<Rightarrow> (nat \<Rightarrow> real) \<Rightarrow> nat
    \<Rightarrow> (error + 'a) \<times> nat \<times> real list" where
  \<comment> \<open>\<^verbatim>\<open>let attempt = 1; while (true) { ... }\<close>; every caller passes \<^verbatim>\<open>maxAttempts = 6\<close>.\<close>
  "fetchJsonWithRetry fetchJson aborted random maxAttempts =
     retryLoop fetchJson aborted random maxAttempts 1 []"

definition retried :: "nat \<Rightarrow> bool \<Rightarrow> nat \<Rightarrow> error + 'a \<Rightarrow> bool" where
  \<comment> \<open>the outcome of attempt \<open>k\<close> is an error after which the loop sleeps and tries again\<close>
  "retried maxAttempts signalAborted k outcome =
     (case outcome of
        Inr v \<Rightarrow> False
      | Inl e \<Rightarrow> \<not> signalAborted \<and> \<not> isAbortError e \<and> \<not> isTimeoutError e \<and> k < maxAttempts
                 \<and> isRetryableError e)"

definition flaky :: "nat \<Rightarrow> error + string" where
  \<comment> \<open>a server that is rate limited twice and answers the third attempt\<close>
  "flaky k = (if k < 3 then Inl (OtherError ''HTTP 429 Too Many Requests | response='') else Inr ''{}'')"

section \<open>Resume checkpoint (normalizeResumeCheckpoint, runGenerationLlm)\<close>

text \<open>
  A parsed JSON object is the list of its properties, the names distinct; the entries of an
  object are visited in the order of the list.
\<close>

definition getProp :: "(string \<times> jsval) list \<Rightarrow> string \<Rightarrow> jsval" where
  \<comment> \<open>\<^verbatim>\<open>row.name\<close>: \<^verbatim>\<open>undefined\<close> when the object has no such property\<close>
  "getProp obj k = (case map_of obj k of Some v \<Rightarrow> v | None \<Rightarrow> JUndef)"

definition asRecord :: "jsval \<Rightarrow> (string \<times> jsval) list option" where
  "asRecord v = (case v of JObj ps \<Rightarrow> Some ps | _ \<Rightarrow> None)"

fun assign :: "('k \<times> 'v) list \<Rightarrow> 'k \<Rightarrow> 'v \<Rightarrow> ('k \<times> 'v) list" where
  \<comment> \<open>\<^verbatim>\<open>obj[k] = v\<close> and \<^verbatim>\<open>map.set(k, v)\<close>: an existing entry keeps its place\<close>
  "assign [] k v = [(k, v)]"
| "assign ((k', v') # ps) k v = (if k' = k then (k, v) # ps else (k', v') # assign ps k v)"

definition has :: "('k \<times> 'v) list \<Rightarrow> 'k \<Rightarrow> bool" where
  \<comment> \<open>\<^verbatim>\<open>map.has(k)\<close>\<close>
  "has m k \<longleftrightarrow> k \<in> fst ` set m"

definition isTokenChar :: "char \<Rightarrow> bool" where
  \<comment> \<open>the class \<^verbatim>\<open>[a-z0-9]\<close>\<close>
  "isTokenChar c = (let n = (of_char c :: nat) in (97 \<le> n \<and> n \<le> 122) \<or> (48 \<le> n \<and> n \<le> 57))"

fun tokenRuns :: "string \<Rightarrow> string \<Rightarrow> string list" where
  \<comment> \<open>the maximal runs of \<^verbatim>\<open>[a-z0-9]\<close>; the first argument is the run being read\<close>
  "tokenRuns cur [] = (if cur = [] then [] else [cur])"
| "tokenRuns cur (c # cs) =
     (if isTokenChar c then tokenRuns (cur @ [c]) cs
      else (if cur = [] then [] else [cur]) @ tokenRuns [] cs)"

fun firstTokens :: "string list \<Rightarrow> string list \<Rightarrow> string list \<Rightarrow> string list" where
  \<comment> \<open>the loop of \<^verbatim>\<open>splitKeywords\<close> on \<^verbatim>\<open>(seen, out)\<close>: it stops at five tokens\<close>
  "firstTokens seen out [] = out"
| "firstTokens seen out (token # tokens) =
     (if token \<in> set seen then firstTokens seen out tokens
      else if length (out @ [token]) \<ge> 5 then out @ [token]
      else firstTokens (seen @ [token]) (out @ [token]) tokens)"

definition splitKeywords :: "string \<Rightarrow> string list" where
  \<comment> \<open>\<^verbatim>\<open>text.toLowerCase().match(/[a-z0-9]{3,}/g)\<close> without the eight stop words\<close>
  "splitKeywords text =
     (let tokens = filter (\<lambda>token. token \<notin> set [''that'', ''with'', ''from'', ''this'', ''have'',
                                                ''will'', ''would'', ''about''])
                     (filter (\<lambda>run. length run \<ge> 3) (tokenRuns [] (toLowerCase text)));
          out = firstTokens [] [] tokens
      in if length out > 0 then out else [''memory''])"

fun sanitizeRows :: "jsval list \<Rightarrow> MemoryCandidate list \<Rightarrow> MemoryCandidate list" where
  \<comment> \<open>the loop of \<^verbatim>\<open>sanitizeMemoryCandidateRows\<close> on \<^verbatim>\<open>out\<close>\<close>
  "sanitizeRows [] out = out"
| "sanitizeRows (raw # raws) out =
     (case asRecord raw of
        None \<Rightarrow> sanitizeRows raws out
      | Some row \<Rightarrow>
          let contentText = safeString (getProp row ''content'') [] in
          if contentText = [] then sanitizeRows raws out
          else let keys = toStringArray (getProp row ''keys'') in
            sanitizeRows raws (out @
              [\<lparr>mName = JStr (safeString (getProp row ''name'') ''Memory''),
                mKeys = JArr (map JStr (if length keys > 0 then keys else splitKeywords contentText)),
                mContent = JStr contentText,
                mCategory = JStr (safeString (getProp row ''category'') ''shared_memory''),
                mPriority = toNumber (nullish (getProp row ''priority'') (JNum 0)),
                mSourceConversation = JStr (safeString
                   (nullish (getProp row ''sourceConversation'') (getProp row ''source_conversation'')) []),
                mSourceDate = JStr (safeString
                   (nullish (getProp row ''sourceDate'') (getProp row ''source_date'')) [])\<rparr>]))"

definition sanitizeMemoryCandidateRows :: "jsval \<Rightarrow> MemoryCandidate list" where
  "sanitizeMemoryCandidateRows rows = (case rows of JArr raws \<Rightarrow> sanitizeRows raws [] | _ \<Rightarrow> [])"

record GenerationResumeCheckpoint =
  version :: int
  signature :: string
  createdAtUtc :: string
  updatedAtUtc :: string
  personaObservationsByConversation :: "(string \<times> (string \<times> jsval) list) list"
  memoryCandidatesBySourceFile :: "(string \<times> MemoryCandidate list) list"
  processedMemoryFiles :: "string list"

definition fallbackCheckpoint :: "string \<Rightarrow> string \<Rightarrow> GenerationResumeCheckpoint" where
  "fallbackCheckpoint sig now =
     \<lparr>version = 1, signature = sig, createdAtUtc = now, updatedAtUtc = now,
      personaObservationsByConversation = [], memoryCandidatesBySourceFile = [],
      processedMemoryFiles = []\<rparr>"

definition entriesOf :: "jsval \<Rightarrow> (string \<times> jsval) list" where
  \<comment> \<open>\<^verbatim>\<open>Object.entries(asRecord(v))\<close> when \<^verbatim>\<open>asRecord(v)\<close> is not null, no entry otherwise\<close>
  "entriesOf v = (case asRecord v of Some ps \<Rightarrow> ps | None \<Rightarrow> [])"

definition hasLegacyData :: "(string \<times> jsval) list \<Rightarrow> bool" where
  "hasLegacyData rootRec \<longleftrightarrow>
     length (entriesOf (getProp rootRec ''personaObservationsByConversation'')) > 0
     \<or> length (entriesOf (getProp rootRec ''memoryCandidatesBySourceFile'')) > 0
     \<or> length (toStringArray (getProp rootRec ''processedMemoryFiles'')) > 0"

definition loadPersona :: "(string \<times> jsval) list \<Rightarrow> (string \<times> (string \<times> jsval) list) list" where
  "loadPersona rootRec =
     foldl (\<lambda>acc (conversationId, row).
              case asRecord row of Some parsed \<Rightarrow> assign acc conversationId parsed | None \<Rightarrow> acc)
       [] (entriesOf (getProp rootRec ''personaObservationsByConversation''))"

definition loadMemory :: "(string \<times> jsval) list \<Rightarrow> (string \<times> MemoryCandidate list) list" where
  "loadMemory rootRec =
     foldl (\<lambda>acc (sourceFile, rows).
              let normalizedRows = sanitizeMemoryCandidateRows rows
              in if length normalizedRows > 0 then assign acc sourceFile normalizedRows else acc)
       [] (entriesOf (getProp rootRec ''memoryCandidatesBySourceFile''))"

definition normalizeResumeCheckpoint :: "jsval \<Rightarrow> string \<Rightarrow> string \<Rightarrow> GenerationResumeCheckpoint" where
  \<comment> \<open>\<open>now\<close> is \<^verbatim>\<open>nowIso()\<close>\<close>
  "normalizeResumeCheckpoint v sig now =
     (case asRecord v of
        None \<Rightarrow> fallbackCheckpoint sig now
      | Some rootRec \<Rightarrow>
          let rootSignature = safeString (getProp rootRec ''signature'') [] in
          if rootSignature \<noteq> sig \<and> \<not> hasLegacyData rootRec then fallbackCheckpoint sig now
          else \<lparr>version = 1, signature = sig,
                createdAtUtc = safeString (getProp rootRec ''createdAtUtc'') now,
                updatedAtUtc = safeString (getProp rootRec ''updatedAtUtc'') now,
                personaObservationsByConversation = loadPersona rootRec,
                memoryCandidatesBySourceFile = loadMemory rootRec,
                processedMemoryFiles = toStringArray (getProp rootRec ''processedMemoryFiles'')\<rparr>)"

definition readResumeCheckpoint :: "jsval option \<Rightarrow> string \<Rightarrow> string \<Rightarrow> GenerationResumeCheckpoint" where
  \<comment> \<open>The file is \<open>None\<close> when reading it or parsing it throws, else the parsed JSON.\<close>
  "readResumeCheckpoint file sig now =
     (case file of Some v \<Rightarrow> normalizeResumeCheckpoint v sig now
      | None \<Rightarrow> normalizeResumeCheckpoint JNull sig now)"

text \<open>
  The head of \<^verbatim>\<open>runGenerationLlm\<close>: from the loaded checkpoint and the selected chunks to
  the chunks whose calls are still to make. A candidate read back from the checkpoint is
  the object with the seven properties.
\<close>

definition candidateObject :: "MemoryCandidate \<Rightarrow> jsval" where
  "candidateObject m =
     JObj [(''name'', mName m), (''keys'', mKeys m), (''content'', mContent m),
           (''category'', mCategory m), (''priority'', mPriority m),
           (''sourceConversation'', mSourceConversation m), (''sourceDate'', mSourceDate m)]"

definition loadedCheckpoint :: "bool \<Rightarrow> jsval option \<Rightarrow> string \<Rightarrow> string \<Rightarrow> GenerationResumeCheckpoint" where
  \<comment> \<open>\<^verbatim>\<open>forceRerun ? normalizeResumeCheckpoint(null, sig) : await readResumeCheckpoint(path, sig)\<close>\<close>
  "loadedCheckpoint forceRerun file sig now =
     (if forceRerun then normalizeResumeCheckpoint JNull sig now else readResumeCheckpoint file sig now)"

definition personaObservationByConversation ::
    "GenerationResumeCheckpoint \<Rightarrow> (string \<times> (string \<times> jsval) list) list" where
  "personaObservationByConversation checkpoint =
     foldl (\<lambda>acc (conversationId, row). assign acc conversationId row)
       [] (personaObservationsByConversation checkpoint)"

definition memoryCandidatesMap :: "GenerationResumeCheckpoint \<Rightarrow> (string \<times> MemoryCandidate list) list" where
  "memoryCandidatesMap checkpoint =
     foldl (\<lambda>acc (file, rows).
              let parsed = sanitizeMemoryCandidateRows (JArr (map candidateObject rows))
              in if length parsed > 0 then assign acc file parsed else acc)
       [] (memoryCandidatesBySourceFile checkpoint)"

definition processedMemoryFileSet :: "GenerationResumeCheckpoint \<Rightarrow> ConversationChunk list \<Rightarrow> string set" where
  "processedMemoryFileSet checkpoint chunksForMemory =
     (let validMemorySourceFiles = set (map sourceFile chunksForMemory)
      in {file \<in> set (processedMemoryFiles checkpoint). file \<in> validMemorySourceFiles}
         \<union> {file \<in> fst ` set (memoryCandidatesMap checkpoint). file \<in> validMemorySourceFiles})"

definition personaChunksPending ::
    "bool \<Rightarrow> GenerationResumeCheckpoint \<Rightarrow> ConversationChunk list \<Rightarrow> ConversationChunk list" where
  "personaChunksPending appendMemories checkpoint chunksForPersona =
     (if appendMemories then []
      else filter (\<lambda>chunk. \<not> has (personaObservationByConversation checkpoint) (chunkConversationId chunk))
             chunksForPersona)"

definition memoryChunksPending :: "GenerationResumeCheckpoint \<Rightarrow> ConversationChunk list \<Rightarrow> ConversationChunk list" where
  "memoryChunksPending checkpoint chunksForMemory =
     filter (\<lambda>chunk. sourceFile chunk \<notin> processedMemoryFileSet checkpoint chunksForMemory) chunksForMemory"

text \<open>
  A checkpoint file written under another signature, with one observation, one file of
  candidates and one processed file; the chunk of that conversation; and a checkpoint that
  records a file as processed and holds no candidates for it.
\<close>

definition storedCheckpoint :: jsval where
  "storedCheckpoint = JObj [(''version'', JNum 1), (''signature'', JStr ''3f2a''),
     (''personaObservationsByConversation'', JObj [(''conv-1'', JObj [(''tone'', JStr ''warm'')])]),
     (''memoryCandidatesBySourceFile'',
        JObj [(''a.jsonl'', JArr [JObj [(''content'', JStr ''We met in Paris in 2019''), (''priority'', JNum 3)]])]),
     (''processedMemoryFiles'', JArr [JStr ''a.jsonl''])]"

definition chunkA :: ConversationChunk where
  "chunkA = \<lparr>chunkConversationId = ''conv-1'', sourceFile = ''a.jsonl'', sourcePath = ''/d/a.jsonl'',
     chunkTranscript = ''[user] hello'', chunkMessagesUsed = 1, chunkCharCount = 12, tokenEstimate = 3\<rparr>"

definition onlyProcessed :: GenerationResumeCheckpoint where
  "onlyProcessed = \<lparr>version = 1, signature = ''3f2a'', createdAtUtc = ''t0'', updatedAtUtc = ''t1'',
     personaObservationsByConversation = [], memoryCandidatesBySourceFile = [],
     processedMemoryFiles = [''a.jsonl'']\<rparr>"

(*PROOFS*)

section \<open>Verification: packet budgets\<close>

lemma packetLoop_used:
  "packetLoop M C ms acc = (lines', cnt', used') \<Longrightarrow> M > 0 \<Longrightarrow> snd (snd acc) \<le> M \<Longrightarrow> used' \<le> M"
proof (induction M C ms acc rule: packetLoop.induct)
  case (1 maxMessages maxChars acc)
  then show ?case by simp
next
  case (2 maxMessages maxChars m ms lines cnt used)
  then show ?case
    by (auto simp: Let_def split: if_splits)
qed

lemma buildConversationPacket_used:
  "maxMessagesPerConversation opts > 0 \<Longrightarrow>
   messagesUsed (buildConversationPacket cid ms opts) \<le> maxMessagesPerConversation opts"
  unfolding buildConversationPacket_def
  by (auto split: prod.splits dest: packetLoop_used)

lemma chunkLoop_ok:
  "chunkLoop readFile idOf aborted opts budget i files out = Inr res \<Longrightarrow> optMaxMessages opts > 0 \<Longrightarrow>
   \<forall>p \<in> set out. chunk_ok (optMaxMessages opts) budget p \<Longrightarrow>
   \<forall>p \<in> set res. chunk_ok (optMaxMessages opts) budget p"
proof (induction files arbitrary: i out)
  case Nil
  then show ?case by simp
next
  case (Cons f files)
  define packet where "packet = buildConversationPacket (idOf (filePath f)) (readFile (filePath f))
                  \<lparr>maxMessagesPerConversation = optMaxMessages opts,
                   maxCharsPerConversation = budget\<rparr>"
  define safeTranscript where "safeTranscript = take (nat budget) (transcript packet)"
  define safeCharCount where
    "safeCharCount = min (charCount packet) (min (int (length safeTranscript)) budget)"
  define entry where "entry = \<lparr>chunkConversationId = conversationId packet,
                                sourceFile = fileName f,
                                sourcePath = filePath f,
                                chunkTranscript = safeTranscript,
                                chunkMessagesUsed = messagesUsed packet,
                                chunkCharCount = safeCharCount,
                                tokenEstimate = estimateTokens safeTranscript\<rparr>"
  have step: "chunkLoop readFile idOf aborted opts budget i (f # files) out =
     (if aborted i then Inl (AbortError ''Generation cancelled by user.'')
      else if messagesUsed packet \<le> 0 \<or> length (trim (transcript packet)) = 0
        then chunkLoop readFile idOf aborted opts budget (Suc i) files out
      else if safeCharCount \<le> 0 \<or> length (trim safeTranscript) = 0
        then chunkLoop readFile idOf aborted opts budget (Suc i) files out
      else chunkLoop readFile idOf aborted opts budget (Suc i) files (out @ [entry]))"
    unfolding packet_def safeTranscript_def safeCharCount_def entry_def
    by (simp only: chunkLoop.simps Let_def)
  have used: "messagesUsed packet \<le> optMaxMessages opts"
    unfolding packet_def using buildConversationPacket_used[of "\<lparr>maxMessagesPerConversation = optMaxMessages opts,
                   maxCharsPerConversation = budget\<rparr>"] Cons.prems(2) by simp
  have entry_ok: "chunk_ok (optMaxMessages opts) budget entry"
    if "\<not> messagesUsed packet \<le> 0" "\<not> (safeCharCount \<le> 0 \<or> length (trim safeTranscript) = 0)"
    using that used by (simp add: chunk_ok_def entry_def safeCharCount_def)
  show ?case
  proof (cases "aborted i")
    case True
    with Cons.prems(1) step show ?thesis by simp
  next
    case na: False
    show ?thesis
    proof (cases "messagesUsed packet \<le> 0 \<or> length (trim (transcript packet)) = 0")
      case True
      with na step Cons.prems(1)
      have "chunkLoop readFile idOf aborted opts budget (Suc i) files out = Inr res" by simp
      from Cons.IH[OF this Cons.prems(2,3)] show ?thesis .
    next
      case c1: False
      show ?thesis
      proof (cases "safeCharCount \<le> 0 \<or> length (trim safeTranscript) = 0")
        case True
        with na c1 step Cons.prems(1)
        have "chunkLoop readFile idOf aborted opts budget (Suc i) files out = Inr res" by simp
        from Cons.IH[OF this Cons.prems(2,3)] show ?thesis .
      next
        case c2: False
        with na c1 step Cons.prems(1)
        have run: "chunkLoop readFile idOf aborted opts budget (Suc i) files (out @ [entry]) = Inr res"
          by simp
        have "\<forall>p \<in> set (out @ [entry]). chunk_ok (optMaxMessages opts) budget p"
          using Cons.prems(3) entry_ok c1 c2 by simp
        from Cons.IH[OF run Cons.prems(2) this] show ?thesis .
      qed
    qed
  qed
qed

lemma budget_eq:
  "optMaxChars opts > 0 \<Longrightarrow> optMaxTotalChars opts > 0 \<Longrightarrow>
   perConversationCharBudget opts n = min (optMaxChars opts) (max 1 (optMaxTotalChars opts div max 1 (int n)))"
  by (auto simp: perConversationCharBudget_def Let_def)

text \<open>
  C5. For positive budgets \<open>M\<close>, \<open>C\<close>, \<open>T\<close> and \<open>N\<close> selected files, every chunk that
  \<^verbatim>\<open>buildChunksFromFiles\<close> emits has \<open>charCount \<le> min C (max 1 (T div max 1 N))\<close> and
  \<open>messagesUsed \<le> M\<close>, and no chunk with \<open>messagesUsed = 0\<close> or a whitespace-only
  transcript is emitted.
\<close>

theorem packets_within_budget:
  assumes "optMaxMessages opts > 0" "optMaxChars opts > 0" "optMaxTotalChars opts > 0"
    and "buildChunksFromFiles readFile idOf aborted files opts = Inr out"
    and "p \<in> set out"
  shows "chunkCharCount p \<le> min (optMaxChars opts) (max 1 (optMaxTotalChars opts div max 1 (int (length files))))
       \<and> chunkMessagesUsed p \<le> optMaxMessages opts
       \<and> chunkMessagesUsed p \<noteq> 0 \<and> trim (chunkTranscript p) \<noteq> []"
  using chunkLoop_ok[OF assms(4)[unfolded buildChunksFromFiles_def] assms(1)] assms(2,3,5)
  by (auto simp: chunk_ok_def budget_eq)

lemma demo_run:
  "buildChunksFromFiles (\<lambda>_. demoMessages) (\<lambda>_. ''a'') (\<lambda>_. False) [demoFile] demoOpts = Inr [demoChunk]"
  by (simp add: buildChunksFromFiles_def perConversationCharBudget_def demoOpts_def demoFile_def
      demoMessages_def demoChunk_def buildConversationPacket_def normalizeNewlines_def trim_def
      isSpace_def estimateTokens_def Let_def)

theorem packets_within_budget_witness:
  "0 < optMaxMessages demoOpts \<and> 0 < optMaxChars demoOpts \<and> 0 < optMaxTotalChars demoOpts
     \<and> buildChunksFromFiles (\<lambda>_. demoMessages) (\<lambda>_. ''a'') (\<lambda>_. False) [demoFile] demoOpts
          = Inr [demoChunk]
     \<and> chunkCharCount demoChunk \<le> min 12 (max 1 (100 div max 1 1)) \<and> chunkMessagesUsed demoChunk \<le> 2
     \<and> chunkMessagesUsed demoChunk \<noteq> 0 \<and> trim (chunkTranscript demoChunk) \<noteq> []"
  using packets_within_budget [OF _ _ _ demo_run, of demoChunk] demo_run
  by (simp add: demoOpts_def)

section \<open>Verification: memory compaction\<close>

lemma trimmed_trim: "trimmed (trim s)"
proof -
  define u where "u = dropWhile isSpace s"
  define w where "w = dropWhile isSpace (rev u)"
  have t: "trim s = rev w" by (simp add: trim_def u_def w_def)
  show ?thesis
  proof (cases "w = []")
    case True
    then show ?thesis by (simp add: t trimmed_def)
  next
    case False
    then have hw: "\<not> isSpace (hd w)" unfolding w_def by (rule hd_dropWhile)
    from False have "rev u \<noteq> []" unfolding w_def by auto
    then have une: "u \<noteq> []" by simp
    then have hu: "\<not> isSpace (hd u)" unfolding u_def by (rule hd_dropWhile)
    obtain pre where "rev u = pre @ w"
      unfolding w_def by (metis takeWhile_dropWhile_id)
    with False have "last w = last (rev u)" by simp
    also have "\<dots> = hd u" using une by (simp add: last_rev)
    finally have lw: "last w = hd u" .
    from False hw hu lw show ?thesis
      by (simp add: t trimmed_def hd_rev last_rev)
  qed
qed

lemma trim_trimmed: "trimmed s \<Longrightarrow> trim s = s"
proof (cases "s = []")
  case True
  then show ?thesis by (simp add: trim_def)
next
  case False
  assume "trimmed s"
  with False have h: "\<not> isSpace (hd s)" and l: "\<not> isSpace (last s)"
    by (auto simp: trimmed_def)
  from False h have d1: "dropWhile isSpace s = s"
    by (cases s) auto
  from False l have d2: "dropWhile isSpace (rev s) = rev s"
    by (cases "rev s") (auto simp: last_rev hd_rev dest: arg_cong[where f=hd])
  show ?thesis by (simp add: trim_def d1 d2)
qed

lemma trim_idem: "trim (trim s) = trim s"
  by (rule trim_trimmed[OF trimmed_trim])

lemma trim_empty_iff: "trim s = [] \<longleftrightarrow> (\<forall>c \<in> set s. isSpace c)"
proof
  assume "trim s = []"
  then have "dropWhile isSpace (rev (dropWhile isSpace s)) = []" by (simp add: trim_def)
  then have "\<forall>c \<in> set (dropWhile isSpace s). isSpace c"
    by (simp add: dropWhile_eq_Nil_conv)
  then have "dropWhile isSpace s = []"
    by (metis hd_dropWhile hd_in_set)
  then show "\<forall>c \<in> set s. isSpace c" by (simp add: dropWhile_eq_Nil_conv)
next
  assume "\<forall>c \<in> set s. isSpace c"
  then have d: "dropWhile isSpace s = []" by (simp add: dropWhile_eq_Nil_conv)
  show "trim s = []" unfolding trim_def d by simp
qed

lemma replaceCRLF_hd:
  "s \<noteq> [] \<Longrightarrow> hd s \<noteq> CR \<Longrightarrow> replaceCRLF s \<noteq> [] \<and> hd (replaceCRLF s) = hd s"
  by (cases s rule: replaceCRLF.cases) auto

lemma trim_replaceCRLF_nonempty:
  assumes "trimmed s" "s \<noteq> []"
  shows "trim (replaceCRLF s) \<noteq> []"
proof -
  from assms have h: "\<not> isSpace (hd s)" by (simp add: trimmed_def)
  then have "hd s \<noteq> CR" by (auto simp: isSpace_def)
  with assms(2) have "replaceCRLF s \<noteq> []" "hd (replaceCRLF s) = hd s"
    using replaceCRLF_hd by blast+
  then have "hd s \<in> set (replaceCRLF s)" by (metis hd_in_set)
  with h show ?thesis by (auto simp: trim_empty_iff)
qed

lemma replaceCRLF_id: "\<not> containsCRLF s \<Longrightarrow> replaceCRLF s = s"
  by (induction s rule: replaceCRLF.induct) auto

lemma set_uniqueFrom: "set (uniqueFrom seen xs) = set xs - set seen"
  by (induction seen xs rule: uniqueFrom.induct) auto

lemma trimmed_Nil: "trimmed []" by (simp add: trimmed_def)

lemma safeString_trimmed: "trimmed d \<Longrightarrow> trimmed (safeString v d)"
  by (simp add: safeString_def Let_def trimmed_trim)

lemma safeString_nonempty: "d \<noteq> [] \<Longrightarrow> safeString v d \<noteq> []"
  by (simp add: safeString_def Let_def)

lemma safeString_JStr_trimmed:
  "trimmed s \<Longrightarrow> \<not> containsCRLF s \<Longrightarrow> s \<noteq> [] \<or> d = [] \<Longrightarrow> safeString (JStr s) d = s"
  by (auto simp: safeString_def safeText_def Let_def replaceCRLF_id trim_trimmed)

lemma stringsOf_map_JStr: "stringsOf (map JStr ks) = ks"
  by (induction ks) auto

lemma toStringArray_elems: "k \<in> set (toStringArray v) \<Longrightarrow> k \<noteq> [] \<and> trimmed k"
  by (auto simp: toStringArray_def trimmed_trim split: jsval.splits)

lemma toStringArray_shaped: "shapedKeys v ks \<Longrightarrow> toStringArray v = ks"
proof -
  assume a: "shapedKeys v ks"
  then have "map trim ks = ks" by (auto simp: shapedKeys_def trim_trimmed intro: map_idI)
  moreover from a have "filter (\<lambda>row. length row > 0) ks = ks" by (auto simp: shapedKeys_def)
  ultimately show ?thesis using a by (simp add: toStringArray_def shapedKeys_def stringsOf_map_JStr)
qed

lemma shapedKeys_toStringArray: "toStringArray v \<noteq> [] \<Longrightarrow> shapedKeys (JArr (map JStr (toStringArray v))) (toStringArray v)"
  using toStringArray_elems by (auto simp: shapedKeys_def)

lemma digit_not_space: "m < 10 \<Longrightarrow> \<not> isSpace (''0123456789'' ! m)"
proof -
  assume "m < 10"
  then consider "m = 0" | "m = 1" | "m = 2" | "m = 3" | "m = 4" | "m = 5" | "m = 6" | "m = 7" | "m = 8" | "m = 9"
    by atomize_elim arith
  then show ?thesis by cases (simp_all add: isSpace_def)
qed

lemma showNat_last: "showNat n \<noteq> [] \<and> \<not> isSpace (last (showNat n))"
  by (subst (1 2) showNat.simps) (simp add: digit_not_space)

lemma trimmed_default_name: "trimmed (memoryName n)" and memoryName_nonempty: "memoryName n \<noteq> []"
  using showNat_last[of n] by (simp_all add: memoryName_def trimmed_def isSpace_def)

lemma stringToNumber_range: "stringToNumber s = JNaN \<or> (\<exists>p. stringToNumber s = JNum p)"
  by (auto simp: stringToNumber_def split: list.splits option.splits)

lemma toNumber_range: "toNumber v = JNaN \<or> (\<exists>p. toNumber v = JNum p)"
  by (induction v rule: toNumber.induct) (auto simp: stringToNumber_range split: jsval.splits)

lemma toNumber_fix: "v = JNaN \<or> (\<exists>p. v = JNum p) \<Longrightarrow> toNumber (nullish v (JNum 0)) = v"
  by (auto simp: nullish_def)

lemma shaped_newEntry:
  assumes "safeString (mContent c) [] \<noteq> []" "toStringArray (mKeys c) \<noteq> []"
  shows "shapedEntry (newEntry n c)"
  unfolding shapedEntry_def newEntry_def
  using assms toNumber_range[of "nullish (mPriority c) (JNum 0)"]
  by (simp add: safeString_trimmed safeString_nonempty trimmed_default_name memoryName_nonempty trimmed_Nil
      trimmed_def[of "''shared_memory''"] isSpace_def shapedKeys_toStringArray exI[of _ "toStringArray (mKeys c)"])

lemma findIndex_Some: "findIndex P xs = Some i \<Longrightarrow> i < length xs \<and> P (xs ! i)"
  by (induction xs arbitrary: i) (auto split: if_splits)

lemma findIndex_None: "findIndex P xs = None \<longleftrightarrow> (\<forall>x \<in> set xs. \<not> P x)"
  by (induction xs) auto

lemma shapedKeys_union:
  assumes "shapedKeys v ks"
  shows "shapedKeys (JArr (map JStr (uniqueFrom [] (toStringArray v @ toStringArray w))))
           (uniqueFrom [] (toStringArray v @ toStringArray w))"
proof -
  let ?u = "uniqueFrom [] (toStringArray v @ toStringArray w)"
  have v: "toStringArray v = ks" by (rule toStringArray_shaped[OF assms])
  have s: "set ?u = set ks \<union> set (toStringArray w)" by (simp add: set_uniqueFrom v)
  from assms have "ks \<noteq> []" by (simp add: shapedKeys_def)
  then have "set ?u \<noteq> {}" using s by simp
  then have ne: "?u \<noteq> []" by auto
  have "\<forall>k \<in> set ?u. k \<noteq> [] \<and> trimmed k"
    using s assms toStringArray_elems[of _ w] by (auto simp: shapedKeys_def)
  with ne show ?thesis by (simp add: shapedKeys_def)
qed

lemma shaped_mergeInto:
  assumes "shapedEntry e" "safeString (mContent c) [] \<noteq> []"
  shows "shapedEntry (mergeInto e c)"
proof -
  from assms(1) obtain ks where ks: "shapedKeys (mKeys e) ks" by (auto simp: shapedEntry_def)
  have k: "\<exists>ks'. shapedKeys (JArr (map JStr (uniqueFrom [] (toStringArray (mKeys e) @ toStringArray (mKeys c))))) ks'"
    using shapedKeys_union[OF ks] by blast
  have c: "trimmed (safeString (mContent c) [])" by (simp add: safeString_trimmed trimmed_Nil)
  show ?thesis
    using assms k c toNumber_range[of "nullish (mPriority c) (JNum 0)"]
    unfolding shapedEntry_def mergeInto_def Let_def
    by (simp split: if_splits)
qed

lemma compactStep_shaped:
  assumes "\<forall>e \<in> set out. shapedEntry e"
  shows "\<forall>e \<in> set (compactStep out c). shapedEntry e"
proof (cases "safeString (mContent c) [] = [] \<or> length (toStringArray (mKeys c)) = 0")
  case True
  then show ?thesis using assms by (simp add: compactStep_def Let_def)
next
  case valid: False
  let ?P = "\<lambda>item. existingSignature item = dedupSignature (safeString (mContent c) []) (toStringArray (mKeys c))"
  show ?thesis
  proof (cases "findIndex ?P out")
    case None
    then have "compactStep out c = out @ [newEntry (length out) c]"
      using valid by (simp add: compactStep_def Let_def)
    moreover have "shapedEntry (newEntry (length out) c)"
      using valid by (intro shaped_newEntry) auto
    ultimately show ?thesis using assms by simp
  next
    case (Some i)
    then have eq: "compactStep out c = out[i := mergeInto (out ! i) c]"
      using valid by (simp add: compactStep_def Let_def)
    from Some have i: "i < length out" by (auto dest: findIndex_Some)
    then have "shapedEntry (out ! i)" using assms by simp
    then have "shapedEntry (mergeInto (out ! i) c)" using valid by (intro shaped_mergeInto) auto
    then show ?thesis using assms i unfolding eq
      by (auto dest!: subsetD[OF set_update_subset_insert])
  qed
qed

lemma foldl_compactStep_shaped:
  "\<forall>e \<in> set out. shapedEntry e \<Longrightarrow> \<forall>e \<in> set (foldl compactStep out xs). shapedEntry e"
proof (induction xs arbitrary: out)
  case Nil
  then show ?case by simp
next
  case (Cons x xs)
  have "\<forall>e \<in> set (compactStep out x). shapedEntry e"
    by (rule compactStep_shaped[OF Cons.prems])
  from Cons.IH[OF this] show ?case by simp
qed

lemma compactMemories_shaped: "e \<in> set (compactMemories xs) \<Longrightarrow> shapedEntry e"
  using foldl_compactStep_shaped[of "[]" xs] by (simp add: compactMemories_def)

lemma shaped_valid:
  assumes "shapedEntry e"
  shows "safeString (mContent e) [] \<noteq> []" and "toStringArray (mKeys e) \<noteq> []"
proof -
  from assms obtain c where c: "mContent e = JStr c" "c \<noteq> []" "trimmed c"
    by (auto simp: shapedEntry_def)
  then show "safeString (mContent e) [] \<noteq> []"
    using trim_replaceCRLF_nonempty[of c] by (simp add: safeString_def safeText_def Let_def)
  from assms obtain ks where "shapedKeys (mKeys e) ks" by (auto simp: shapedEntry_def)
  then show "toStringArray (mKeys e) \<noteq> []"
    using toStringArray_shaped by (auto simp: shapedKeys_def)
qed

lemma compactStep_invalid:
  "safeString (mContent c) [] = [] \<or> toStringArray (mKeys c) = [] \<Longrightarrow> compactStep out c = out"
  by (auto simp: compactStep_def Let_def)

lemma safeString_not_string: "(\<forall>s. v \<noteq> JStr s) \<Longrightarrow> safeString v [] = []"
  by (cases v) (auto simp: safeString_def safeText_def trim_def)

lemma toStringArray_no_strings:
  "(\<forall>rows. v = JArr rows \<longrightarrow> (\<forall>s. JStr s \<notin> set rows)) \<Longrightarrow> toStringArray v = []"
proof (cases v)
  case (JArr rows)
  assume a: "\<forall>rows. v = JArr rows \<longrightarrow> (\<forall>s. JStr s \<notin> set rows)"
  have "(\<forall>s. JStr s \<notin> set rs) \<Longrightarrow> stringsOf rs = []" for rs
    by (induction rs rule: stringsOf.induct) auto
  with a JArr show ?thesis by (simp add: toStringArray_def)
qed (auto simp: toStringArray_def)

lemma shaped_fixed:
  assumes "shapedEntry e" "crlfFree e"
  shows "newEntry n e = e"
proof -
  from assms(1) obtain nm ks c g s d where
    f: "mName e = JStr nm" "nm \<noteq> []" "trimmed nm" "shapedKeys (mKeys e) ks"
       "mContent e = JStr c" "c \<noteq> []" "trimmed c" "mCategory e = JStr g" "g \<noteq> []" "trimmed g"
       "mSourceConversation e = JStr s" "trimmed s" "mSourceDate e = JStr d" "trimmed d"
    and p: "mPriority e = JNaN \<or> (\<exists>p. mPriority e = JNum p)"
    unfolding shapedEntry_def by blast
  from assms(2) f have nc: "\<not> containsCRLF nm" "\<not> containsCRLF c" "\<not> containsCRLF g"
      "\<not> containsCRLF s" "\<not> containsCRLF d"
    by (simp_all add: crlfFree_def textOf_def)
  have k: "toStringArray (mKeys e) = ks" by (rule toStringArray_shaped[OF f(4)])
  have k': "mKeys e = JArr (map JStr ks)" using f(4) by (simp add: shapedKeys_def)
  have "newEntry n e = \<lparr>mName = mName e, mKeys = mKeys e, mContent = mContent e,
      mCategory = mCategory e, mPriority = mPriority e,
      mSourceConversation = mSourceConversation e, mSourceDate = mSourceDate e\<rparr>"
    unfolding newEntry_def k toNumber_fix[OF p]
    by (simp add: f nc k' safeString_JStr_trimmed)
  then show ?thesis by simp
qed

lemma foldl_compactStep_fixed:
  assumes "\<forall>e \<in> set ys. shapedEntry e \<and> crlfFree e"
    and "distinct (map existingSignature (out @ ys))"
  shows "foldl compactStep out ys = out @ ys"
  using assms
proof (induction ys arbitrary: out)
  case Nil
  then show ?case by simp
next
  case (Cons y ys)
  have sh: "shapedEntry y" "crlfFree y" using Cons.prems(1) by simp_all
  have valid: "safeString (mContent y) [] \<noteq> []" "toStringArray (mKeys y) \<noteq> []"
    using shaped_valid[OF sh(1)] by simp_all
  have "existingSignature y \<notin> existingSignature ` set out"
    using Cons.prems(2) by auto
  then have "\<forall>item \<in> set out. existingSignature item \<noteq> existingSignature y"
    by (metis imageI)
  then have "findIndex (\<lambda>item. existingSignature item =
      dedupSignature (safeString (mContent y) []) (toStringArray (mKeys y))) out = None"
    unfolding findIndex_None existingSignature_def[of y] .
  then have "compactStep out y = out @ [newEntry (length out) y]"
    using valid by (simp add: compactStep_def Let_def)
  then have step: "compactStep out y = out @ [y]" by (simp add: shaped_fixed[OF sh])
  have "foldl compactStep (out @ [y]) ys = (out @ [y]) @ ys"
    using Cons.prems by (intro Cons.IH) simp_all
  then show ?case by (simp add: step)
qed

lemma containsCRLF_Cons: "containsCRLF zs \<Longrightarrow> containsCRLF (x # zs)"
  by (cases zs) auto

lemma containsCRLF_suffix: "containsCRLF ys \<Longrightarrow> containsCRLF (xs @ ys)"
  by (induction xs) (auto intro: containsCRLF_Cons)

lemma containsCRLF_prefix: "containsCRLF xs \<Longrightarrow> containsCRLF (xs @ ys)"
  by (induction xs rule: containsCRLF.induct) auto

lemma containsCRLF_trim:
  assumes "containsCRLF (trim s)"
  shows "containsCRLF s"
proof -
  let ?u = "dropWhile isSpace s"
  have "?u = rev (rev ?u)" by simp
  also have "\<dots> = rev (takeWhile isSpace (rev ?u) @ dropWhile isSpace (rev ?u))"
    by (simp only: takeWhile_dropWhile_id)
  also have "\<dots> = trim s @ rev (takeWhile isSpace (rev ?u))"
    by (simp only: rev_append trim_def)
  finally have u: "?u = trim s @ rev (takeWhile isSpace (rev ?u))" .
  have "containsCRLF ?u" by (subst u) (rule containsCRLF_prefix[OF assms])
  then have "containsCRLF (takeWhile isSpace s @ ?u)" by (rule containsCRLF_suffix)
  then show ?thesis by simp
qed

lemma noCR_containsCRLF: "CR \<notin> set s \<Longrightarrow> \<not> containsCRLF s"
  by (induction s rule: containsCRLF.induct) auto

lemma showNat_no_space: "c \<in> set (showNat n) \<Longrightarrow> \<not> isSpace c"
proof (induction n arbitrary: c rule: showNat.induct)
  case (1 n)
  show ?case
  proof (cases "n < 10")
    case True
    with "1.prems" show ?thesis by (subst (asm) showNat.simps) (simp add: digit_not_space)
  next
    case False
    with "1.prems" have "c \<in> set (showNat (n div 10)) \<or> c = ''0123456789'' ! (n mod 10)"
      by (subst (asm) showNat.simps) auto
    then show ?thesis using "1.IH"[OF False] digit_not_space[of "n mod 10"] by auto
  qed
qed

lemma memoryName_stable: "\<not> containsCRLF (memoryName n)"
proof -
  have "CR \<notin> set (showNat n)" using showNat_no_space[of CR n] by (auto simp: isSpace_def)
  then have "CR \<notin> set (memoryName n)" by (simp add: memoryName_def)
  then show ?thesis by (rule noCR_containsCRLF)
qed

lemma safeString_stable:
  "stableText v \<Longrightarrow> \<not> containsCRLF d \<Longrightarrow> \<not> containsCRLF (safeString v d)"
  using containsCRLF_trim[of "safeText v"] by (auto simp: safeString_def stableText_def Let_def)

lemma safeString_reread:
  assumes "stableText v" "safeString v [] \<noteq> []"
  shows "safeString (JStr (safeString v [])) [] = safeString v []"
  using assms safeString_stable[of v "[]"]
  by (intro safeString_JStr_trimmed) (simp_all add: safeString_trimmed trimmed_Nil)

lemma uniqueFrom_cong: "set a = set b \<Longrightarrow> uniqueFrom a xs = uniqueFrom b xs"
proof (induction xs arbitrary: a b)
  case Nil
  then show ?case by simp
next
  case (Cons x xs)
  have "set (a @ [x]) = set (b @ [x])" using Cons.prems by simp
  then have "uniqueFrom (a @ [x]) xs = uniqueFrom (b @ [x]) xs" by (rule Cons.IH)
  moreover have "uniqueFrom a xs = uniqueFrom b xs" by (rule Cons.IH[OF Cons.prems])
  ultimately show ?case using Cons.prems by simp
qed

lemma uniqueFrom_append:
  "uniqueFrom seen (xs @ ys) = uniqueFrom seen xs @ uniqueFrom (seen @ xs) ys"
proof (induction xs arbitrary: seen)
  case Nil
  then show ?case by simp
next
  case (Cons x xs)
  show ?case
  proof (cases "x \<in> set seen")
    case True
    have "uniqueFrom (seen @ xs) ys = uniqueFrom (seen @ x # xs) ys"
      using True by (intro uniqueFrom_cong) auto
    with True show ?thesis by (simp add: Cons.IH)
  next
    case False
    then show ?thesis by (simp add: Cons.IH)
  qed
qed

lemma uniqueFrom_fresh: "distinct xs \<Longrightarrow> set xs \<inter> set seen = {} \<Longrightarrow> uniqueFrom seen xs = xs"
  by (induction xs arbitrary: seen) auto

lemma uniqueFrom_seen: "set xs \<subseteq> set seen \<Longrightarrow> uniqueFrom seen xs = []"
  by (induction xs arbitrary: seen) auto

lemma uniqueFrom_twice: "distinct ks \<Longrightarrow> uniqueFrom [] (ks @ ks) = ks"
  by (simp add: uniqueFrom_append uniqueFrom_fresh uniqueFrom_seen)

lemma mergeInto_same_keys:
  assumes sh: "shapedEntry e"
    and k: "toStringArray (mKeys e) = toStringArray (mKeys c)"
    and d: "distinct (toStringArray (mKeys c))"
  shows "mKeys (mergeInto e c) = mKeys e" "mName (mergeInto e c) = mName e"
    "mCategory (mergeInto e c) = mCategory e"
    "mSourceConversation (mergeInto e c) = mSourceConversation e"
    "mSourceDate (mergeInto e c) = mSourceDate e"
    "mContent (mergeInto e c) = mContent e \<or> mContent (mergeInto e c) = JStr (safeString (mContent c) [])"
proof -
  from sh obtain ks where ks: "shapedKeys (mKeys e) ks" by (auto simp: shapedEntry_def)
  have "toStringArray (mKeys e) = ks" by (rule toStringArray_shaped[OF ks])
  with k d have u: "uniqueFrom [] (toStringArray (mKeys e) @ toStringArray (mKeys c)) = ks"
    by (simp add: uniqueFrom_twice)
  have m: "JArr (map JStr ks) = mKeys e" using ks by (simp add: shapedKeys_def)
  show "mKeys (mergeInto e c) = mKeys e" "mName (mergeInto e c) = mName e"
    "mCategory (mergeInto e c) = mCategory e"
    "mSourceConversation (mergeInto e c) = mSourceConversation e"
    "mSourceDate (mergeInto e c) = mSourceDate e"
    "mContent (mergeInto e c) = mContent e \<or> mContent (mergeInto e c) = JStr (safeString (mContent c) [])"
    unfolding mergeInto_def Let_def u m by simp_all
qed

lemma merge_keeps_signature:
  assumes sh: "shapedEntry e"
    and k: "toStringArray (mKeys e) = toStringArray (mKeys c)"
    and d: "distinct (toStringArray (mKeys c))"
    and s: "existingSignature e = existingSignature c"
    and st: "stableText (mContent c)" and ne: "safeString (mContent c) [] \<noteq> []"
  shows "existingSignature (mergeInto e c) = existingSignature e"
    and "toStringArray (mKeys (mergeInto e c)) = toStringArray (mKeys e)"
proof -
  note f = mergeInto_same_keys[OF sh k d]
  show "toStringArray (mKeys (mergeInto e c)) = toStringArray (mKeys e)" by (simp add: f(1))
  from f(6) show "existingSignature (mergeInto e c) = existingSignature e"
  proof
    assume "mContent (mergeInto e c) = mContent e"
    then show ?thesis by (simp add: existingSignature_def f(1))
  next
    assume "mContent (mergeInto e c) = JStr (safeString (mContent c) [])"
    then have "existingSignature (mergeInto e c) = existingSignature c"
      by (simp add: existingSignature_def f(1) k safeString_reread[OF st ne])
    with s show ?thesis by simp
  qed
qed

lemma merge_crlfFree:
  assumes sh: "shapedEntry e"
    and k: "toStringArray (mKeys e) = toStringArray (mKeys c)"
    and d: "distinct (toStringArray (mKeys c))"
    and st: "stableText (mContent c)" and fr: "crlfFree e"
  shows "crlfFree (mergeInto e c)"
proof -
  note f = mergeInto_same_keys[OF sh k d]
  have "\<not> containsCRLF (textOf (mContent (mergeInto e c)))"
    using f(6) fr safeString_stable[OF st, of "[]"] by (auto simp: crlfFree_def textOf_def)
  then show ?thesis using fr by (simp add: crlfFree_def f)
qed

lemma newEntry_crlfFree: "crlfStable c \<Longrightarrow> crlfFree (newEntry n c)"
  by (simp add: crlfFree_def crlfStable_def newEntry_def textOf_def safeString_stable memoryName_stable)

lemma newEntry_signature:
  assumes "stableText (mContent c)" "safeString (mContent c) [] \<noteq> []" "toStringArray (mKeys c) \<noteq> []"
  shows "existingSignature (newEntry n c) = existingSignature c"
    and "toStringArray (mKeys (newEntry n c)) = toStringArray (mKeys c)"
proof -
  show k: "toStringArray (mKeys (newEntry n c)) = toStringArray (mKeys c)"
    using toStringArray_shaped[OF shapedKeys_toStringArray[OF assms(3)]] by (simp add: newEntry_def)
  have "mContent (newEntry n c) = JStr (safeString (mContent c) [])" by (simp add: newEntry_def)
  then show "existingSignature (newEntry n c) = existingSignature c"
    by (simp add: existingSignature_def k safeString_reread[OF assms(1,2)])
qed

text \<open>The invariant of the loop on inputs whose merges add no key.\<close>

lemma compactStep_settled:
  assumes h1: "\<forall>x \<in> set xs. \<forall>y \<in> set xs. existingSignature x = existingSignature y
            \<longrightarrow> toStringArray (mKeys x) = toStringArray (mKeys y)"
    and c: "c \<in> set xs" "distinct (toStringArray (mKeys c))" "crlfStable c"
    and inv: "\<forall>e \<in> set out. shapedEntry e \<and> crlfFree e
               \<and> (\<exists>x \<in> set xs. existingSignature x = existingSignature e
                      \<and> toStringArray (mKeys x) = toStringArray (mKeys e))"
      "distinct (map existingSignature out)"
  shows "(\<forall>e \<in> set (compactStep out c). shapedEntry e \<and> crlfFree e
               \<and> (\<exists>x \<in> set xs. existingSignature x = existingSignature e
                      \<and> toStringArray (mKeys x) = toStringArray (mKeys e)))
     \<and> distinct (map existingSignature (compactStep out c))"
proof (cases "safeString (mContent c) [] = [] \<or> length (toStringArray (mKeys c)) = 0")
  case True
  then show ?thesis using inv by (simp add: compactStep_def Let_def)
next
  case valid: False
  then have v: "safeString (mContent c) [] \<noteq> []" "toStringArray (mKeys c) \<noteq> []" by auto
  from c(3) have st: "stableText (mContent c)" by (simp add: crlfStable_def)
  let ?P = "\<lambda>item. existingSignature item = dedupSignature (safeString (mContent c) []) (toStringArray (mKeys c))"
  have P: "?P item \<longleftrightarrow> existingSignature item = existingSignature c" for item
    by (simp add: existingSignature_def[of c])
  show ?thesis
  proof (cases "findIndex ?P out")
    case None
    then have eq: "compactStep out c = out @ [newEntry (length out) c]"
      using valid by (simp add: compactStep_def Let_def)
    let ?e = "newEntry (length out) c"
    note s = newEntry_signature[OF st v, of "length out"]
    have "shapedEntry ?e" by (rule shaped_newEntry[OF v])
    moreover have "crlfFree ?e" by (rule newEntry_crlfFree[OF c(3)])
    moreover have "\<exists>x \<in> set xs. existingSignature x = existingSignature ?e
        \<and> toStringArray (mKeys x) = toStringArray (mKeys ?e)"
      using c(1) s by (intro bexI[of _ c]) simp_all
    moreover have "existingSignature ?e \<notin> existingSignature ` set out"
      using None unfolding findIndex_None P s(1) by auto
    ultimately show ?thesis using inv unfolding eq by simp
  next
    case (Some i)
    then have eq: "compactStep out c = out[i := mergeInto (out ! i) c]"
      using valid by (simp add: compactStep_def Let_def)
    from findIndex_Some[OF Some] have i: "i < length out"
      and sg: "existingSignature (out ! i) = existingSignature c" by (simp_all add: P)
    let ?e = "out ! i"
    from i inv(1) have e: "shapedEntry ?e" "crlfFree ?e" by simp_all
    from i inv(1) obtain x where x: "x \<in> set xs" "existingSignature x = existingSignature ?e"
      "toStringArray (mKeys x) = toStringArray (mKeys ?e)"
      by (meson nth_mem)
    from h1 x(1) c(1) have "existingSignature x = existingSignature c
        \<longrightarrow> toStringArray (mKeys x) = toStringArray (mKeys c)" by blast
    moreover have "existingSignature x = existingSignature c" by (rule trans[OF x(2) sg])
    ultimately have "toStringArray (mKeys x) = toStringArray (mKeys c)" by blast
    with x(3) have k: "toStringArray (mKeys ?e) = toStringArray (mKeys c)" by simp
    note m = merge_keeps_signature[OF e(1) k c(2) sg st v(1)]
    have m1: "shapedEntry (mergeInto ?e c)" by (rule shaped_mergeInto[OF e(1) v(1)])
    have m2: "crlfFree (mergeInto ?e c)" by (rule merge_crlfFree[OF e(1) k c(2) st e(2)])
    have m3: "\<exists>x \<in> set xs. existingSignature x = existingSignature (mergeInto ?e c)
        \<and> toStringArray (mKeys x) = toStringArray (mKeys (mergeInto ?e c))"
      using x by (intro bexI[of _ x]) (simp_all add: m)
    have sigs: "map existingSignature (out[i := mergeInto ?e c]) = map existingSignature out"
      using i by (simp add: map_update m(1) list_update_same_conv)
    have "\<forall>e \<in> set (out[i := mergeInto ?e c]). shapedEntry e \<and> crlfFree e
               \<and> (\<exists>x \<in> set xs. existingSignature x = existingSignature e
                      \<and> toStringArray (mKeys x) = toStringArray (mKeys e))"
    proof
      fix e' assume "e' \<in> set (out[i := mergeInto ?e c])"
      then have "e' = mergeInto ?e c \<or> e' \<in> set out"
        using set_update_subset_insert[of out i "mergeInto ?e c"] by auto
      then show "shapedEntry e' \<and> crlfFree e'
               \<and> (\<exists>x \<in> set xs. existingSignature x = existingSignature e'
                      \<and> toStringArray (mKeys x) = toStringArray (mKeys e'))"
        using m1 m2 m3 inv(1) by blast
    qed
    then show ?thesis unfolding eq sigs using inv(2) by simp
  qed
qed

lemma foldl_compactStep_settled:
  assumes h1: "\<forall>x \<in> set xs. \<forall>y \<in> set xs. existingSignature x = existingSignature y
            \<longrightarrow> toStringArray (mKeys x) = toStringArray (mKeys y)"
  shows "set cs \<subseteq> set xs \<Longrightarrow> \<forall>c \<in> set cs. distinct (toStringArray (mKeys c)) \<and> crlfStable c \<Longrightarrow>
    \<forall>e \<in> set out. shapedEntry e \<and> crlfFree e
               \<and> (\<exists>x \<in> set xs. existingSignature x = existingSignature e
                      \<and> toStringArray (mKeys x) = toStringArray (mKeys e)) \<Longrightarrow>
    distinct (map existingSignature out) \<Longrightarrow>
    (\<forall>e \<in> set (foldl compactStep out cs). shapedEntry e \<and> crlfFree e)
     \<and> distinct (map existingSignature (foldl compactStep out cs))"
proof (induction cs arbitrary: out)
  case Nil
  then show ?case by simp
next
  case (Cons c cs)
  have c: "c \<in> set xs" "distinct (toStringArray (mKeys c))" "crlfStable c"
    using Cons.prems(1,2) by simp_all
  from compactStep_settled[OF h1 c Cons.prems(3,4)]
  have i: "\<forall>e \<in> set (compactStep out c). shapedEntry e \<and> crlfFree e
               \<and> (\<exists>x \<in> set xs. existingSignature x = existingSignature e
                      \<and> toStringArray (mKeys x) = toStringArray (mKeys e))"
    "distinct (map existingSignature (compactStep out c))" by blast+
  have "set cs \<subseteq> set xs" "\<forall>c \<in> set cs. distinct (toStringArray (mKeys c)) \<and> crlfStable c"
    using Cons.prems(1,2) by simp_all
  from Cons.IH[OF this i] show ?case by simp
qed

text \<open>
  C7 (as amended). Compacting a compacted list changes nothing when no merge can add a key
  and no text keeps a CR LF pair: any two candidates of the list with the same dedup
  signature list the same keys, no candidate lists a key twice, and one pass of the CR LF
  replacement leaves no CR LF pair in a string field of a candidate. Then
  \<^verbatim>\<open>compactMemories(compactMemories(xs))\<close> is \<^verbatim>\<open>compactMemories(xs)\<close>.
\<close>

theorem compactMemories_idempotent_when_merges_add_no_key:
  assumes "\<forall>x \<in> set xs. \<forall>y \<in> set xs. existingSignature x = existingSignature y
            \<longrightarrow> toStringArray (mKeys x) = toStringArray (mKeys y)"
    and "\<forall>x \<in> set xs. distinct (toStringArray (mKeys x))"
    and "\<forall>x \<in> set xs. crlfStable x"
  shows "compactMemories (compactMemories xs) = compactMemories xs"
proof -
  have "(\<forall>e \<in> set (foldl compactStep [] xs). shapedEntry e \<and> crlfFree e)
     \<and> distinct (map existingSignature (foldl compactStep [] xs))"
    using assms(2,3) by (intro foldl_compactStep_settled[OF assms(1)]) simp_all
  then show ?thesis
    using foldl_compactStep_fixed[of "compactMemories xs" "[]"] by (simp add: compactMemories_def)
qed

text \<open>
  C10. Every entry of the output of \<^verbatim>\<open>compactMemories\<close> has non-empty content and at
  least one key; a candidate whose content is empty or not a string, or whose keys hold no
  string, is dropped without a trace, so the output can be shorter than an input that has no
  two equal signatures.
\<close>

theorem compactMemories_drops_invalid:
  "(\<forall>e \<in> set (compactMemories xs). safeString (mContent e) [] \<noteq> [] \<and> toStringArray (mKeys e) \<noteq> [])
   \<and> (safeString (mContent c) [] = [] \<or> toStringArray (mKeys c) = []
        \<longrightarrow> compactMemories (xs @ c # ys) = compactMemories (xs @ ys))
   \<and> ((\<forall>s. mContent c \<noteq> JStr s) \<longrightarrow> safeString (mContent c) [] = [])
   \<and> ((\<forall>rows. mKeys c = JArr rows \<longrightarrow> (\<forall>s. JStr s \<notin> set rows)) \<longrightarrow> toStringArray (mKeys c) = [])
   \<and> (\<exists>zs. distinct (map existingSignature zs) \<and> length (compactMemories zs) < length zs)"
proof -
  have "distinct (map existingSignature [notText]) \<and> length (compactMemories [notText]) < length [notText]"
    by (simp add: compactMemories_def compactStep_invalid[OF disjI1[OF safeString_not_string]] notText_def)
  then have "\<exists>zs. distinct (map existingSignature zs) \<and> length (compactMemories zs) < length zs"
    by blast
  then show ?thesis
    using shaped_valid compactMemories_shaped[of _ xs] compactStep_invalid[of c "foldl compactStep [] xs"]
      safeString_not_string[of "mContent c"] toStringArray_no_strings[of "mKeys c"]
    by (auto simp: compactMemories_def)
qed

lemma sig_memA: "existingSignature memA = ''paris trip|paris''"
  by (simp add: existingSignature_def memA_def dedupSignature_def normalize_def toLowerCase_def
      toLowerChar_def safeString_def safeText_def toStringArray_def trim_def isSpace_def Let_def)

lemma sig_memB: "existingSignature memB = ''paris trip|paris''"
  by (simp add: existingSignature_def memB_def dedupSignature_def normalize_def toLowerCase_def
      toLowerChar_def safeString_def safeText_def toStringArray_def trim_def isSpace_def Let_def)

lemma compact_memA_memB: "compactMemories [memA, memB] = [memAB]"
  by code_simp

lemma compact_memAB: "compactMemories [memAB] = [memAB]"
  by code_simp

lemma compact_notText: "compactMemories [notText] = []" by code_simp

lemma compact_with_notText: "compactMemories ([memA] @ notText # [memB]) = [memAB]" by code_simp

text \<open>
  C6. On two candidates of equal dedup signature the merged entry keeps both \<^verbatim>\<open>Paris\<close> and
  \<^verbatim>\<open>paris\<close>, two keys that differ only by case, and its empty \<^verbatim>\<open>sourceConversation\<close>
  and \<^verbatim>\<open>sourceDate\<close> are not filled from the duplicate; the priority is the greater one
  and the content the longer one.
\<close>

theorem compactMemories_case_variant_merge:
  "existingSignature memA = existingSignature memB
   \<and> compactMemories [memA, memB] = [memAB]
   \<and> mKeys memAB = JArr [JStr ''Paris'', JStr ''paris'']
   \<and> toLowerCase ''Paris'' = toLowerCase ''paris''
   \<and> mSourceConversation memA = JStr [] \<and> mSourceConversation memB = JStr ''conv-2''
   \<and> mSourceConversation memAB = JStr []
   \<and> mSourceDate memA = JStr [] \<and> mSourceDate memB = JStr ''2024-05-01''
   \<and> mSourceDate memAB = JStr []"
proof -
  have "existingSignature memA = existingSignature memB"
    by (simp only: sig_memA sig_memB)
  moreover have "toLowerCase ''Paris'' = toLowerCase ''paris''"
    by (simp add: toLowerCase_def toLowerChar_def)
  moreover have "mKeys memAB = JArr [JStr ''Paris'', JStr ''paris'']"
    "mSourceConversation memAB = JStr []" "mSourceDate memAB = JStr []"
    by (simp_all add: memAB_def)
  moreover have "mSourceConversation memA = JStr []" "mSourceDate memA = JStr []"
    by (simp_all add: memA_def)
  moreover have "mSourceConversation memB = JStr ''conv-2''" "mSourceDate memB = JStr ''2024-05-01''"
    by (simp_all add: memB_def)
  ultimately show ?thesis
    using compact_memA_memB by (simp only: simp_thms)
qed

lemma cr_runs:
  "compactMemories [plain crText [''k'']] = [plain [CHR ''a'', CR, LF, CHR ''b''] [''k'']]"
  "compactMemories [plain [CHR ''a'', CR, LF, CHR ''b''] [''k'']] = [plain [CHR ''a'', LF, CHR ''b''] [''k'']]"
  by code_simp+

lemma pipe_runs:
  "compactMemories pipeKeys = [plain ''x'' [''a|b'', ''a'', ''b''], plain ''x'' [''a|b'', ''a'', ''b'']]"
  "compactMemories [plain ''x'' [''a|b'', ''a'', ''b''], plain ''x'' [''a|b'', ''a'', ''b'']]
     = [plain ''x'' [''a|b'', ''a'', ''b'']]"
  by code_simp+

lemma repeated_runs:
  "compactMemories repeatedKey = [plain ''x'' [''a''], plain ''x'' [''a'']]"
  "compactMemories [plain ''x'' [''a''], plain ''x'' [''a'']] = [plain ''x'' [''a'']]"
  by code_simp+

text \<open>
  C7 fails as stated, in three ways that have nothing to do with the case of the keys. The
  content \<^verbatim>\<open>a\r\r\nb\<close> is stored as \<^verbatim>\<open>a\r\nb\<close> by the first pass and as \<^verbatim>\<open>a\nb\<close>
  by the second. Of the keys \<^verbatim>\<open>[a|b]\<close>, \<^verbatim>\<open>[a|b, a, b]\<close>, \<^verbatim>\<open>[a, b]\<close> under one
  content the first and the third have one signature and merge into the keys of the second,
  and of the keys \<^verbatim>\<open>[a, a]\<close>, \<^verbatim>\<open>[a]\<close>, \<^verbatim>\<open>[a, a]\<close> the first and the third merge
  into the keys of the second: the first pass leaves two entries of one signature, which
  the second pass merges.
\<close>

theorem compactMemories_second_pass_differs:
  "compactMemories [plain crText [''k'']] = [plain [CHR ''a'', CR, LF, CHR ''b''] [''k'']]
   \<and> compactMemories (compactMemories [plain crText [''k'']]) = [plain [CHR ''a'', LF, CHR ''b''] [''k'']]
   \<and> compactMemories (compactMemories [plain crText [''k'']]) \<noteq> compactMemories [plain crText [''k'']]
   \<and> length (compactMemories pipeKeys) = 2
   \<and> length (compactMemories (compactMemories pipeKeys)) = 1
   \<and> length (compactMemories repeatedKey) = 2
   \<and> length (compactMemories (compactMemories repeatedKey)) = 1"
  by (simp add: cr_runs pipe_runs repeated_runs) (simp add: plain_def)

lemma parisTwice_facts:
  "\<forall>x \<in> set parisTwice. \<forall>y \<in> set parisTwice. existingSignature x = existingSignature y
            \<longrightarrow> toStringArray (mKeys x) = toStringArray (mKeys y)"
  "\<forall>x \<in> set parisTwice. distinct (toStringArray (mKeys x))"
  "\<forall>x \<in> set parisTwice. crlfStable x"
  by code_simp+

lemma parisTwice_run:
  "compactMemories parisTwice = [plain (''paris '' @ [LF] @ ''trip'') [''paris''], plain ''Rome'' [''rome'']]"
  by code_simp

theorem compactMemories_idempotent_when_merges_add_no_key_witness:
  "compactMemories (compactMemories parisTwice) = compactMemories parisTwice
   \<and> compactMemories parisTwice = [plain (''paris '' @ [LF] @ ''trip'') [''paris''], plain ''Rome'' [''rome'']]"
  using compactMemories_idempotent_when_merges_add_no_key [OF parisTwice_facts]
  by (simp add: parisTwice_run)

lemma compact_memA: "compactMemories [memA] = [memA]"
  by code_simp

theorem compactMemories_drops_invalid_witness:
  "safeString (mContent memA) [] \<noteq> [] \<and> toStringArray (mKeys memA) \<noteq> []
   \<and> mContent notText = JNum 3 \<and> mKeys notText = JArr [JNum 1, JNull]
   \<and> safeString (mContent notText) [] = [] \<and> toStringArray (mKeys notText) = []
   \<and> compactMemories ([memA] @ notText # [memB]) = compactMemories ([memA] @ [memB])"
  using compactMemories_drops_invalid [of "[memA]" notText "[memB]"]
  by (simp add: compact_memA notText_def)

section \<open>Verification: primary model\<close>

lemma compareWeights_lex:
  "compareWeights xs ys = (if xs < ys then - 1 else if xs = ys then 0 else 1)"
  by (induction xs ys rule: compareWeights.induct) auto

lemma localeCompareAscii_key:
  "localeCompareAscii a b \<le> 0 \<longleftrightarrow>
     map primaryWeight a < map primaryWeight b
     \<or> (map primaryWeight a = map primaryWeight b \<and> map caseWeight a \<le> map caseWeight b)"
  by (auto simp: localeCompareAscii_def compareWeights_lex Let_def)

lemma localeCompareAscii_pos:
  "localeCompareAscii a b > 0 \<longleftrightarrow>
     map primaryWeight b < map primaryWeight a
     \<or> (map primaryWeight a = map primaryWeight b \<and> map caseWeight b < map caseWeight a)"
  by (auto simp: localeCompareAscii_def compareWeights_lex Let_def)

lemma localeCompareAscii_neg:
  "localeCompareAscii a b < 0 \<longleftrightarrow>
     map primaryWeight a < map primaryWeight b
     \<or> (map primaryWeight a = map primaryWeight b \<and> map caseWeight a < map caseWeight b)"
  by (auto simp: localeCompareAscii_def compareWeights_lex Let_def)

lemma collation_localeCompareAscii: "collation localeCompareAscii"
  unfolding collation_def
proof (intro conjI allI impI)
  fix a show "localeCompareAscii a a = 0"
    by (simp add: localeCompareAscii_def compareWeights_lex)
next
  fix a b show "(0 < localeCompareAscii a b) = (localeCompareAscii b a < 0)"
    unfolding localeCompareAscii_pos localeCompareAscii_neg by auto
next
  fix a b c
  assume "localeCompareAscii a b \<le> 0 \<and> localeCompareAscii b c \<le> 0"
  then show "localeCompareAscii a c \<le> 0"
    unfolding localeCompareAscii_key
    by (elim conjE disjE) (simp_all, (meson less_trans)?)
qed

lemma collation_strict:
  assumes "collation cmp" and "cmp a b \<le> 0" and "cmp c b > 0"
  shows "cmp a c < 0"
proof (rule ccontr)
  assume "\<not> cmp a c < 0"
  then have "\<not> cmp c a > 0" using assms(1) unfolding collation_def by blast
  then have "cmp c a \<le> 0" by simp
  with assms(2) have "cmp c b \<le> 0" using assms(1) unfolding collation_def by blast
  with assms(3) show False by simp
qed

lemma primaryStep_first:
  assumes col: "collation cmp"
    and inv: "i < length pre" "best = pre ! i" "bc = countOf counts best"
      "\<forall>m \<in> set pre. countOf counts m \<le> bc \<and> (countOf counts m = bc \<longrightarrow> cmp m best \<le> 0)"
      "\<forall>j < i. countOf counts (pre ! j) = bc \<longrightarrow> cmp (pre ! j) best < 0"
    and step: "primaryStep cmp counts (best, bc) model = (best', bc')"
  shows "\<exists>k < length (pre @ [model]). best' = (pre @ [model]) ! k \<and> bc' = countOf counts best'
     \<and> (\<forall>m \<in> set (pre @ [model]). countOf counts m \<le> bc' \<and> (countOf counts m = bc' \<longrightarrow> cmp m best' \<le> 0))
     \<and> (\<forall>j < k. countOf counts ((pre @ [model]) ! j) = bc' \<longrightarrow> cmp ((pre @ [model]) ! j) best' < 0)"
proof -
  from col have refl: "\<And>a. cmp a a = 0"
    and trans: "\<And>a b c. cmp a b \<le> 0 \<Longrightarrow> cmp b c \<le> 0 \<Longrightarrow> cmp a c \<le> 0"
    unfolding collation_def by blast+
  let ?c = "countOf counts model"
  let ?l = "pre @ [model]"
  have last: "?l ! length pre = model" by simp
  have old: "\<And>j. j < length pre \<Longrightarrow> ?l ! j = pre ! j" by (simp add: nth_append)
  consider (gt) "?c > bc" | (tie) "?c = bc" "cmp model best > 0" | (keep) "\<not> ?c > bc" "\<not> (?c = bc \<and> cmp model best > 0)"
    by blast
  then show ?thesis
  proof cases
    case gt
    with step have e: "best' = model" "bc' = ?c" by (auto simp: primaryStep_def Let_def)
    have a: "\<forall>m \<in> set pre. countOf counts m \<le> ?c \<and> (countOf counts m = ?c \<longrightarrow> cmp m model \<le> 0)"
      using gt inv(4) by fastforce
    have b: "\<forall>j < length pre. countOf counts (?l ! j) = ?c \<longrightarrow> cmp (?l ! j) model < 0"
    proof (intro allI impI)
      fix j assume j: "j < length pre" and c: "countOf counts (?l ! j) = ?c"
      from j have "pre ! j \<in> set pre" by simp
      with inv(4) have "countOf counts (pre ! j) \<le> bc" by blast
      with c gt old[OF j] show "cmp (?l ! j) model < 0" by simp
    qed
    show ?thesis
      by (rule exI[of _ "length pre"]) (use a b refl[of model] last in \<open>simp add: e\<close>)
  next
    case tie
    with step have e: "best' = model" "bc' = ?c" by (auto simp: primaryStep_def Let_def)
    have lt: "\<And>m. cmp m best \<le> 0 \<Longrightarrow> cmp m model < 0"
      using collation_strict[OF col _ tie(2)] by blast
    have a: "\<forall>m \<in> set pre. countOf counts m \<le> ?c \<and> (countOf counts m = ?c \<longrightarrow> cmp m model \<le> 0)"
      using tie(1) inv(4) lt by (simp add: order.strict_implies_order)
    have b: "\<forall>j < length pre. countOf counts (?l ! j) = ?c \<longrightarrow> cmp (?l ! j) model < 0"
    proof (intro allI impI)
      fix j assume j: "j < length pre" and c: "countOf counts (?l ! j) = ?c"
      from j have "pre ! j \<in> set pre" by simp
      with inv(4) c tie(1) old[OF j] have "cmp (pre ! j) best \<le> 0" by simp
      from lt[OF this] old[OF j] show "cmp (?l ! j) model < 0" by simp
    qed
    show ?thesis
      by (rule exI[of _ "length pre"]) (use a b refl[of model] last in \<open>simp add: e\<close>)
  next
    case keep
    with step have e: "best' = best" "bc' = bc" by (auto simp: primaryStep_def Let_def split: if_splits)
    from keep have k: "?c \<le> bc" "?c = bc \<longrightarrow> cmp model best \<le> 0" by auto
    have b: "\<forall>j < i. countOf counts (?l ! j) = bc \<longrightarrow> cmp (?l ! j) best < 0"
      using inv(1,5) by (simp add: nth_append)
    have "i < length ?l" "best = ?l ! i" using inv(1,2) by (simp_all add: nth_append)
    then show ?thesis
      using inv(3,4) k b unfolding e by (intro exI[of _ i]) simp
  qed
qed

lemma foldl_primaryStep_first:
  assumes col: "collation cmp"
  shows "i < length pre \<Longrightarrow> best = pre ! i \<Longrightarrow> bc = countOf counts best \<Longrightarrow>
    \<forall>m \<in> set pre. countOf counts m \<le> bc \<and> (countOf counts m = bc \<longrightarrow> cmp m best \<le> 0) \<Longrightarrow>
    \<forall>j < i. countOf counts (pre ! j) = bc \<longrightarrow> cmp (pre ! j) best < 0 \<Longrightarrow>
    foldl (primaryStep cmp counts) (best, bc) rest = (r, rc) \<Longrightarrow>
    \<exists>k < length (pre @ rest). r = (pre @ rest) ! k \<and> rc = countOf counts r
     \<and> (\<forall>m \<in> set (pre @ rest). countOf counts m \<le> rc \<and> (countOf counts m = rc \<longrightarrow> cmp m r \<le> 0))
     \<and> (\<forall>j < k. countOf counts ((pre @ rest) ! j) = rc \<longrightarrow> cmp ((pre @ rest) ! j) r < 0)"
proof (induction rest arbitrary: pre i best bc)
  case Nil
  from Nil.prems(6) have "r = best" "rc = bc" by simp_all
  then show ?case using Nil.prems(1-5) by auto
next
  case (Cons model rest)
  obtain b' c' where st: "primaryStep cmp counts (best, bc) model = (b', c')" by fastforce
  from primaryStep_first[OF col Cons.prems(1-5) st]
  obtain k where k: "k < length (pre @ [model])" "b' = (pre @ [model]) ! k" "c' = countOf counts b'"
    "\<forall>m \<in> set (pre @ [model]). countOf counts m \<le> c' \<and> (countOf counts m = c' \<longrightarrow> cmp m b' \<le> 0)"
    "\<forall>j < k. countOf counts ((pre @ [model]) ! j) = c' \<longrightarrow> cmp ((pre @ [model]) ! j) b' < 0"
    by blast
  from Cons.prems(6) st have f: "foldl (primaryStep cmp counts) (b', c') rest = (r, rc)" by simp
  from Cons.IH[OF k f] show ?case by simp
qed

text \<open>
  C8 (as amended). On the empty list and on a list whose first name is the empty string
  \<^verbatim>\<open>choosePrimaryModel\<close> throws. On any other list it returns a model of the list with
  the highest message count that no model of that count exceeds in the collation of
  \<^verbatim>\<open>localeCompare\<close>, and of the models of that count that compare equal to it, the first
  in the order of the list.
\<close>

theorem choosePrimaryModel_first_greatest_in_collation:
  assumes "collation cmp"
  shows "(models = [] \<or> hd models = [] \<longrightarrow>
            choosePrimaryModel cmp models counts
              = Inl (OtherError ''Cannot choose primary model from an empty list''))
     \<and> (models \<noteq> [] \<and> hd models \<noteq> [] \<longrightarrow>
          (\<exists>k < length models. choosePrimaryModel cmp models counts = Inr (models ! k)
             \<and> (\<forall>m \<in> set models. countOf counts m \<le> countOf counts (models ! k))
             \<and> (\<forall>m \<in> set models. countOf counts m = countOf counts (models ! k)
                    \<longrightarrow> cmp m (models ! k) \<le> 0)
             \<and> (\<forall>j < k. countOf counts (models ! j) = countOf counts (models ! k)
                    \<longrightarrow> cmp (models ! j) (models ! k) < 0)))"
proof (cases models)
  case Nil
  then show ?thesis by (simp add: choosePrimaryModel_def)
next
  case (Cons first rest)
  show ?thesis
  proof (cases "first = []")
    case True
    with Cons show ?thesis by (simp add: choosePrimaryModel_def)
  next
    case False
    obtain r rc where f: "foldl (primaryStep cmp counts) (first, countOf counts first) rest = (r, rc)"
      by fastforce
    have init: "\<forall>m \<in> set [first]. countOf counts m \<le> countOf counts first
        \<and> (countOf counts m = countOf counts first \<longrightarrow> cmp m first \<le> 0)"
      using assms(1) by (simp add: collation_def)
    have "\<exists>k < length ([first] @ rest). r = ([first] @ rest) ! k \<and> rc = countOf counts r
     \<and> (\<forall>m \<in> set ([first] @ rest). countOf counts m \<le> rc \<and> (countOf counts m = rc \<longrightarrow> cmp m r \<le> 0))
     \<and> (\<forall>j < k. countOf counts (([first] @ rest) ! j) = rc \<longrightarrow> cmp (([first] @ rest) ! j) r < 0)"
      by (rule foldl_primaryStep_first[OF assms(1) _ _ refl init _ f, of 0]) simp_all
    then obtain k where k: "k < length models" "r = models ! k"
      "\<forall>m \<in> set models. countOf counts m \<le> countOf counts r
          \<and> (countOf counts m = countOf counts r \<longrightarrow> cmp m r \<le> 0)"
      "\<forall>j < k. countOf counts (models ! j) = countOf counts r \<longrightarrow> cmp (models ! j) r < 0"
      using Cons by auto
    have c: "choosePrimaryModel cmp models counts = Inr r"
      using Cons False f by (simp add: choosePrimaryModel_def)
    have "\<exists>k < length models. choosePrimaryModel cmp models counts = Inr (models ! k)
             \<and> (\<forall>m \<in> set models. countOf counts m \<le> countOf counts (models ! k))
             \<and> (\<forall>m \<in> set models. countOf counts m = countOf counts (models ! k)
                    \<longrightarrow> cmp m (models ! k) \<le> 0)
             \<and> (\<forall>j < k. countOf counts (models ! j) = countOf counts (models ! k)
                    \<longrightarrow> cmp (models ! j) (models ! k) < 0)"
      using k c by (intro exI[of _ k]) simp
    then show ?thesis using Cons False by simp
  qed
qed

lemma tie_B_a:
  "choosePrimaryModel localeCompareAscii [''B'', ''a''] [''B'' \<mapsto> 1, ''a'' \<mapsto> 1] = Inr ''B''"
  by (simp add: choosePrimaryModel_def primaryStep_def countOf_def localeCompareAscii_def
      primaryWeight_def caseWeight_def Let_def)

text \<open>
  C8 fails as stated: \<^verbatim>\<open>B\<close> and \<^verbatim>\<open>a\<close> tie on the count, the code unit order puts
  \<^verbatim>\<open>a\<close> (97) above \<^verbatim>\<open>B\<close> (66), the collation puts \<^verbatim>\<open>B\<close> above \<^verbatim>\<open>a\<close>, and
  the function returns \<^verbatim>\<open>B\<close>.
\<close>

theorem choosePrimaryModel_tie_not_by_code_unit:
  "choosePrimaryModel localeCompareAscii [''B'', ''a''] [''B'' \<mapsto> 1, ''a'' \<mapsto> 1] = Inr ''B''
   \<and> countOf [''B'' \<mapsto> 1, ''a'' \<mapsto> 1] ''a'' = countOf [''B'' \<mapsto> 1, ''a'' \<mapsto> 1] ''B''
   \<and> ''B'' < ''a''"
  using tie_B_a by (simp add: countOf_def less_char_def)

lemma tie_gpt:
  "choosePrimaryModel localeCompareAscii [''gpt4o'', ''gpt4omini''] [''gpt4o'' \<mapsto> 2, ''gpt4omini'' \<mapsto> 2]
     = Inr ''gpt4omini''"
  by (simp add: choosePrimaryModel_def primaryStep_def countOf_def localeCompareAscii_def
      primaryWeight_def caseWeight_def Let_def)

theorem choosePrimaryModel_first_greatest_in_collation_witness:
  "collation localeCompareAscii
   \<and> choosePrimaryModel localeCompareAscii [''gpt4o'', ''gpt4omini''] [''gpt4o'' \<mapsto> 2, ''gpt4omini'' \<mapsto> 2]
       = Inr ''gpt4omini''
   \<and> countOf [''gpt4o'' \<mapsto> 2, ''gpt4omini'' \<mapsto> 2] ''gpt4o'' = countOf [''gpt4o'' \<mapsto> 2, ''gpt4omini'' \<mapsto> 2] ''gpt4omini''
   \<and> localeCompareAscii ''gpt4o'' ''gpt4omini'' < 0
   \<and> choosePrimaryModel localeCompareAscii [] [''gpt4o'' \<mapsto> 2]
       = Inl (OtherError ''Cannot choose primary model from an empty list'')
   \<and> choosePrimaryModel localeCompareAscii [[], ''gpt4o''] [''gpt4o'' \<mapsto> 2]
       = Inl (OtherError ''Cannot choose primary model from an empty list'')"
  using choosePrimaryModel_first_greatest_in_collation [OF collation_localeCompareAscii, of "[''gpt4o'', ''gpt4omini'']" "[''gpt4o'' \<mapsto> 2, ''gpt4omini'' \<mapsto> 2]"]
    choosePrimaryModel_first_greatest_in_collation [OF collation_localeCompareAscii, of "[]" "[''gpt4o'' \<mapsto> 2]"]
    choosePrimaryModel_first_greatest_in_collation [OF collation_localeCompareAscii, of "[[], ''gpt4o'']" "[''gpt4o'' \<mapsto> 2]"]
    collation_localeCompareAscii
  by (simp add: tie_gpt countOf_def localeCompareAscii_def primaryWeight_def caseWeight_def)

section \<open>Verification: prompt templates\<close>

lemma placeholderNames_safe: "key \<in> placeholderNames \<Longrightarrow> safeKey key"
  by (auto simp: placeholderNames_def safeKey_def)

lemma replaceAllFrom_skip:
  assumes "pat \<noteq> []" and "\<forall>t'. suffix t' t \<and> t' \<noteq> [] \<longrightarrow> \<not> prefix pat (t' @ v)"
  shows "replaceAllFrom pat rep b (t @ v) = t @ replaceAllFrom pat rep (b @ t) v"
  using assms(2)
proof (induction t arbitrary: b)
  case Nil
  then show ?case by simp
next
  case (Cons c t)
  have np: "\<not> prefix pat ((c # t) @ v)" using Cons.prems[THEN spec, of "c # t"] by simp
  have suf: "\<forall>t'. suffix t' t \<and> t' \<noteq> [] \<longrightarrow> \<not> prefix pat (t' @ v)"
    using Cons.prems by (simp add: suffix_Cons)
  have "replaceAllFrom pat rep b ((c # t) @ v) = c # replaceAllFrom pat rep (b @ [c]) (t @ v)"
    using np assms(1) by (subst replaceAllFrom.simps) simp
  then show ?case using Cons.IH[OF suf, of "b @ [c]"] by simp
qed

lemma replaceAllFrom_through:
  assumes "pat \<noteq> []"
  shows "\<forall>u'. suffix u' u \<and> u' \<noteq> [] \<and> prefix pat (u' @ w) \<longrightarrow> length pat \<le> length u' \<Longrightarrow>
    \<exists>x. replaceAllFrom pat rep b (u @ w) = x @ replaceAllFrom pat rep (b @ u) w"
proof (induction "length u" arbitrary: u b rule: less_induct)
  case less
  show ?case
  proof (cases u)
    case Nil
    then show ?thesis by simp
  next
    case (Cons c u1)
    show ?thesis
    proof (cases "prefix pat (u @ w)")
      case True
      with less.prems[THEN spec, of u] Cons have len: "length pat \<le> length u" by simp
      with True have pu: "prefix pat u" by (metis prefix_length_prefix prefixI)
      then obtain u2 where u2: "u = pat @ u2" by (auto simp: prefix_def)
      have d: "drop (length pat) (u @ w) = u2 @ w" by (simp add: u2)
      have une: "u @ w \<noteq> []" using Cons by simp
      have step: "replaceAllFrom pat rep b (u @ w) =
          getSubstitution pat b (u2 @ w) rep @ replaceAllFrom pat rep (b @ pat) (u2 @ w)"
        using True assms une by (subst replaceAllFrom.simps) (simp only: d if_True if_False)
      have shorter: "length u2 < length u" using assms by (simp add: u2)
      have cond: "\<forall>u'. suffix u' u2 \<and> u' \<noteq> [] \<and> prefix pat (u' @ w) \<longrightarrow> length pat \<le> length u'"
        using less.prems by (auto simp: u2 suffix_append)
      from less.hyps[OF shorter cond, of "b @ pat"]
      obtain x where "replaceAllFrom pat rep (b @ pat) (u2 @ w) = x @ replaceAllFrom pat rep (b @ u) w"
        by (auto simp: u2)
      with step show ?thesis by simp
    next
      case False
      have step: "replaceAllFrom pat rep b (u @ w) = c # replaceAllFrom pat rep (b @ [c]) (u1 @ w)"
        using False assms Cons by (subst replaceAllFrom.simps) simp
      have cond: "\<forall>u'. suffix u' u1 \<and> u' \<noteq> [] \<and> prefix pat (u' @ w) \<longrightarrow> length pat \<le> length u'"
        using less.prems by (auto simp: Cons suffix_Cons)
      from less.hyps[OF _ cond, of "b @ [c]"] Cons
      obtain x where "replaceAllFrom pat rep (b @ [c]) (u1 @ w) = x @ replaceAllFrom pat rep (b @ u) w"
        by auto
      with step show ?thesis by simp
    qed
  qed
qed

lemma prefix_key_brace:
  "CHR ''}'' \<notin> set key \<Longrightarrow> CHR ''}'' \<notin> set s \<Longrightarrow> prefix (key @ ''}'') (s @ CHR ''}'' # r) \<Longrightarrow> key = s"
proof (induction key arbitrary: s)
  case Nil
  then show ?case by (cases s) auto
next
  case (Cons k key)
  then show ?case by (cases s) auto
qed

lemma token_no_match_inside:
  assumes "safeKey key" "t \<in> outputTokens" "suffix t' t" "t' \<noteq> []"
  shows "\<not> prefix (''{'' @ key @ ''}'') (t' @ v)"
proof -
  from assms(2,3) have "t' \<in> {[], ''}'', ''}}'', ''r}}'', ''er}}'', ''ser}}'', ''user}}'', ''{user}}'', ''{{user}}'',
      ''ar}}'', ''har}}'', ''char}}'', ''{char}}'', ''{{char}}''}"
    by (auto simp: outputTokens_def suffix_Cons)
  then consider "t' = []" | "hd t' \<noteq> CHR ''{''" "t' \<noteq> []"
    | "t' = ''{{user}}''" | "t' = ''{user}}''" | "t' = ''{{char}}''" | "t' = ''{char}}''"
    by auto
  then show ?thesis
  proof cases
    case 1
    with assms(4) show ?thesis by simp
  next
    case 2
    then show ?thesis by (cases t') auto
  next
    case 3
    with assms(1) show ?thesis by (cases key) (auto simp: safeKey_def)
  next
    case 4
    show ?thesis
    proof
      assume "prefix (''{'' @ key @ ''}'') (t' @ v)"
      then have "prefix (key @ ''}'') (''user'' @ CHR ''}'' # (CHR ''}'' # v))" by (simp add: 4)
      from prefix_key_brace[OF _ _ this] assms(1) show False by (simp add: safeKey_def)
    qed
  next
    case 5
    with assms(1) show ?thesis by (cases key) (auto simp: safeKey_def)
  next
    case 6
    show ?thesis
    proof
      assume "prefix (''{'' @ key @ ''}'') (t' @ v)"
      then have "prefix (key @ ''}'') (''char'' @ CHR ''}'' # (CHR ''}'' # v))" by (simp add: 6)
      from prefix_key_brace[OF _ _ this] assms(1) show False by (simp add: safeKey_def)
    qed
  qed
qed

lemma prefix_split:
  assumes "prefix p (u @ w)" "length u < length p"
  shows "\<exists>q. p = u @ q \<and> q \<noteq> [] \<and> prefix q w"
proof -
  from assms(1) obtain z where "u @ w = p @ z" by (auto simp: prefix_def)
  then obtain us where "(u @ us = p \<and> w = us @ z) \<or> (u = p @ us \<and> us @ w = z)"
    by (auto simp: append_eq_append_conv2)
  with assms(2) have "u @ us = p" "w = us @ z" by auto
  with assms(2) show ?thesis by (intro exI[of _ us]) auto
qed

lemma match_before_token_ends_before:
  assumes "safeKey key" "t \<in> outputTokens" "u' \<noteq> []" "prefix (''{'' @ key @ ''}'') (u' @ t @ v)"
  shows "length (''{'' @ key @ ''}'') \<le> length u'"
proof (rule ccontr)
  define p where "p = ''{'' @ key @ ''}''"
  assume "\<not> length (''{'' @ key @ ''}'') \<le> length u'"
  then have lt: "length u' < length p" by (simp add: p_def)
  from assms(4) have "prefix p (u' @ (t @ v))" by (simp add: p_def)
  from prefix_split[OF this lt] obtain q where q: "p = u' @ q" "q \<noteq> []" "prefix q (t @ v)"
    by blast
  from assms(2) obtain r where "t @ v = CHR ''{'' # r" by (auto simp: outputTokens_def)
  with q(2,3) have hq: "hd q = CHR ''{''" by (cases q) auto
  from assms(3) obtain c u1 where u': "u' = c # u1" by (cases u') auto
  from q(1) u' have "key @ ''}'' = u1 @ q" by (simp add: p_def)
  then have "set q \<subseteq> set (key @ ''}'')" by (metis set_append sup_ge2)
  with hq q(2) have "CHR ''{'' \<in> set (key @ ''}'')" by (metis hd_in_set subsetD)
  with assms(1) show False by (simp add: safeKey_def)
qed

lemma replaceAllFrom_token:
  assumes "safeKey key" "t \<in> outputTokens"
  shows "\<exists>x. replaceAllFrom (''{'' @ key @ ''}'') rep b (u @ t @ v)
           = x @ t @ replaceAllFrom (''{'' @ key @ ''}'') rep (b @ u @ t) v"
proof -
  define p where "p = ''{'' @ key @ ''}''"
  have pne: "p \<noteq> []" by (simp add: p_def)
  have c1: "\<forall>u'. suffix u' u \<and> u' \<noteq> [] \<and> prefix p (u' @ (t @ v)) \<longrightarrow> length p \<le> length u'"
    unfolding p_def using match_before_token_ends_before[OF assms] by blast
  have c2: "\<forall>t'. suffix t' t \<and> t' \<noteq> [] \<longrightarrow> \<not> prefix p (t' @ v)"
    unfolding p_def using token_no_match_inside[OF assms] by blast
  from replaceAllFrom_through[OF pne c1, of rep b]
  obtain x where "replaceAllFrom p rep b (u @ (t @ v)) = x @ replaceAllFrom p rep (b @ u) (t @ v)"
    by blast
  with replaceAllFrom_skip[OF pne c2, of rep "b @ u"] show ?thesis
    unfolding p_def by auto
qed

lemma replaceAllFrom_weave:
  assumes "safeKey key" "\<forall>(s, t) \<in> set ps. t \<in> outputTokens"
  shows "\<exists>ss end'. length ss = length ps
      \<and> replaceAllFrom (''{'' @ key @ ''}'') rep b (weave ps end) = weave (zip ss (map snd ps)) end'"
  using assms(2)
proof (induction ps arbitrary: b)
  case Nil
  then show ?case by (simp add: weave_def)
next
  case (Cons st ps)
  obtain s t where st: "st = (s, t)" by (cases st)
  with Cons.prems have t: "t \<in> outputTokens" and rest: "\<forall>(s, t) \<in> set ps. t \<in> outputTokens"
    by auto
  have w: "weave (st # ps) end = s @ t @ weave ps end" by (simp add: weave_def st)
  from replaceAllFrom_token[OF assms(1) t, of rep b s "weave ps end"]
  obtain x where x: "replaceAllFrom (''{'' @ key @ ''}'') rep b (s @ t @ weave ps end)
      = x @ t @ replaceAllFrom (''{'' @ key @ ''}'') rep (b @ s @ t) (weave ps end)" by blast
  from Cons.IH[OF rest, of "b @ s @ t"]
  obtain ss end' where ih: "length ss = length ps"
    "replaceAllFrom (''{'' @ key @ ''}'') rep (b @ s @ t) (weave ps end) = weave (zip ss (map snd ps)) end'"
    by blast
  have "replaceAllFrom (''{'' @ key @ ''}'') rep b (weave (st # ps) end)
      = weave (zip (x # ss) (map snd (st # ps))) end'"
    unfolding w x ih(2) by (simp add: weave_def st)
  with ih(1) show ?case by (intro exI[of _ "x # ss"] exI[of _ end']) simp
qed

lemma fill_weave:
  assumes "\<forall>(s, t) \<in> set ps. t \<in> outputTokens"
  shows "\<forall>(key, v) \<in> set vals. safeKey key \<Longrightarrow> length ss = length ps \<Longrightarrow>
    \<exists>ss' end'. length ss' = length ps
      \<and> fillPromptTemplate (weave (zip ss (map snd ps)) end) vals = weave (zip ss' (map snd ps)) end'"
proof (induction vals arbitrary: ss "end")
  case Nil
  then show ?case by (auto simp: fillPromptTemplate_def)
next
  case (Cons kv vals)
  obtain key v where kv: "kv = (key, v)" by (cases kv)
  with Cons.prems have key: "safeKey key" and rest: "\<forall>(key, v) \<in> set vals. safeKey key" by auto
  let ?ps = "zip ss (map snd ps)"
  have "t \<in> outputTokens" if "(s, t) \<in> set ?ps" for s t
  proof -
    from that have "t \<in> set (map snd ps)" by (rule set_zip_rightD)
    then show ?thesis using assms by auto
  qed
  then have toks: "\<forall>(s, t) \<in> set ?ps. t \<in> outputTokens" by auto
  have m: "map snd ?ps = map snd ps" using Cons.prems(2) by (simp add: map_snd_zip)
  from replaceAllFrom_weave[OF key toks, of "toStr (nullish v (JStr []))" "[]" "end"]
  obtain ss1 end1 where s1: "length ss1 = length ?ps"
    "replaceAll (weave ?ps end) (''{'' @ key @ ''}'') (toStr (nullish v (JStr [])))
       = weave (zip ss1 (map snd ps)) end1"
    unfolding replaceAll_def m by blast
  from s1(1) Cons.prems(2) have l1: "length ss1 = length ps" by simp
  from Cons.IH[OF rest l1, of end1]
  obtain ss' end' where "length ss' = length ps"
    "fillPromptTemplate (weave (zip ss1 (map snd ps)) end1) vals = weave (zip ss' (map snd ps)) end'"
    by blast
  moreover have "fillPromptTemplate (weave ?ps end) (kv # vals)
      = fillPromptTemplate (weave (zip ss1 (map snd ps)) end1) vals"
    using s1(2) by (simp add: fillPromptTemplate_def kv)
  ultimately show ?case by auto
qed

text \<open>
  C9. However a template is laid out as stretches of text around occurrences of the tokens
  \<^verbatim>\<open>{{user}}\<close> and \<^verbatim>\<open>{{char}}\<close>, filling it with values for the documented placeholder
  names gives a text with the same tokens in the same order, each verbatim, around new
  stretches of text: every occurrence of a token in the template survives.
\<close>

theorem fillPromptTemplate_keeps_tokens:
  assumes "\<forall>(key, v) \<in> set vals. key \<in> placeholderNames"
    and "\<forall>(s, t) \<in> set ps. t \<in> outputTokens"
  shows "\<exists>ss end'. length ss = length ps
      \<and> fillPromptTemplate (weave ps end) vals = weave (zip ss (map snd ps)) end'"
proof -
  have k: "\<forall>(key, v) \<in> set vals. safeKey key"
    using assms(1) placeholderNames_safe by auto
  have z: "zip (map fst ps) (map snd ps) = ps" by (simp add: zip_map_fst_snd)
  from fill_weave[OF assms(2) k, of "map fst ps" "end"] show ?thesis
    unfolding z by simp
qed
theorem fillPromptTemplate_keeps_tokens_witness:
  "\<exists>ss end'. length ss = length [(''Dear '', ''{{user}}''), ('', '', ''{{char}}'')]
     \<and> fillPromptTemplate (weave [(''Dear '', ''{{user}}''), ('', '', ''{{char}}'')] '' has {max_memories}'')
          [(''companion_name'', JStr ''Ann''), (''max_memories'', JNum 6)]
       = weave (zip ss (map snd [(''Dear '', ''{{user}}''), ('', '', ''{{char}}'')])) end'"
  using fillPromptTemplate_keeps_tokens [of "[(''companion_name'', JStr ''Ann''), (''max_memories'', JNum 6)]"
      "[(''Dear '', ''{{user}}''), ('', '', ''{{char}}'')]" "'' has {max_memories}''"]
  by (simp add: placeholderNames_def outputTokens_def)

section \<open>Verification: HTTP retry\<close>

lemma retryLoop_spec:
  "retryLoop fetchJson aborted random maxAttempts a ds = (res, n, ds') \<Longrightarrow>
   a \<le> n \<and> n \<le> max a maxAttempts \<and> res = fetchJson n
   \<and> ds' = ds @ map (\<lambda>k. min 45 (2 ^ (k - 1) + random k)) [a..<n]
   \<and> (\<forall>k. a \<le> k \<and> k < n \<longrightarrow> retried maxAttempts (aborted k) k (fetchJson k))
   \<and> \<not> retried maxAttempts (aborted n) n (fetchJson n)"
proof (induction fetchJson aborted random maxAttempts a ds rule: retryLoop.induct)
  case (1 fetchJson aborted random maxAttempts attempt delays)
  show ?case
  proof (cases "retried maxAttempts (aborted attempt) attempt (fetchJson attempt)")
    case False
    then have "retryLoop fetchJson aborted random maxAttempts attempt delays
        = (fetchJson attempt, attempt, delays)"
      by (subst retryLoop.simps) (auto simp: retried_def split: sum.splits)
    with "1.prems" False show ?thesis by auto
  next
    case True
    then obtain e where e: "fetchJson attempt = Inl e" "\<not> (aborted attempt \<or> isAbortError e)"
        "\<not> isTimeoutError e" "\<not> (attempt \<ge> maxAttempts \<or> \<not> isRetryableError e)"
      by (auto simp: retried_def split: sum.splits)
    let ?b = "min 45 (2 ^ (attempt - 1) + random attempt)"
    have "retryLoop fetchJson aborted random maxAttempts attempt delays
        = retryLoop fetchJson aborted random maxAttempts (attempt + 1) (delays @ [?b])"
      using e by (subst retryLoop.simps) (simp add: Let_def)
    with "1.prems" have run: "retryLoop fetchJson aborted random maxAttempts (attempt + 1) (delays @ [?b])
        = (res, n, ds')" by simp
    from "1.IH"[OF e refl run]
    have ih: "attempt + 1 \<le> n" "n \<le> max (attempt + 1) maxAttempts" "res = fetchJson n"
      "ds' = (delays @ [?b]) @ map (\<lambda>k. min 45 (2 ^ (k - 1) + random k)) [attempt + 1..<n]"
      "\<forall>k. attempt + 1 \<le> k \<and> k < n \<longrightarrow> retried maxAttempts (aborted k) k (fetchJson k)"
      "\<not> retried maxAttempts (aborted n) n (fetchJson n)"
      by blast+
    have upt: "[attempt..<n] = attempt # [attempt + 1..<n]"
      using ih(1) by (simp add: upt_conv_Cons)
    have "\<forall>k. attempt \<le> k \<and> k < n \<longrightarrow> retried maxAttempts (aborted k) k (fetchJson k)"
      using ih(5) True by (metis Suc_eq_plus1 Suc_leI le_neq_implies_less)
    moreover have "n \<le> max attempt maxAttempts" using ih(2) e(4) by simp
    moreover have "ds' = delays @ map (\<lambda>k. min 45 (2 ^ (k - 1) + random k)) [attempt..<n]"
      unfolding upt ih(4) by simp
    ultimately show ?thesis using ih(1,3,6) by simp
  qed
qed

text \<open>
  C4 (as amended). A call makes at most \<open>max 1 maxAttempts\<close> attempts (6 at every call
  site) and returns what its last attempt gave. An attempt is followed by another exactly
  when it failed, the caller's signal is not aborted, the error is neither an
  \<^verbatim>\<open>AbortError\<close> nor a \<^verbatim>\<open>TimeoutError\<close>, fewer than \<open>maxAttempts\<close> attempts have been
  made and the lower-cased message contains one of the fourteen retry markers. The delay
  after attempt \<open>k\<close> is \<open>min 45 (2 ^ (k - 1) + u)\<close> seconds with \<open>u\<close> the random draw in
  \<open>[0, 1)\<close>, so it lies between 1 and 45 seconds.
\<close>

theorem fetchJsonWithRetry_policy:
  assumes "fetchJsonWithRetry fetchJson aborted random maxAttempts = (res, n, delays)"
    and "\<forall>k. 0 \<le> random k \<and> random k < 1"
  shows "1 \<le> n \<and> n \<le> max 1 maxAttempts \<and> res = fetchJson n
    \<and> (\<forall>k. 1 \<le> k \<and> k < n \<longrightarrow> retried maxAttempts (aborted k) k (fetchJson k))
    \<and> \<not> retried maxAttempts (aborted n) n (fetchJson n)
    \<and> length delays = n - 1
    \<and> (\<forall>k. 1 \<le> k \<and> k < n \<longrightarrow> delays ! (k - 1) = min 45 (2 ^ (k - 1) + random k)
          \<and> 1 \<le> delays ! (k - 1) \<and> delays ! (k - 1) \<le> 45)"
proof -
  from retryLoop_spec[OF assms(1)[unfolded fetchJsonWithRetry_def]]
  have s: "1 \<le> n" "n \<le> max 1 maxAttempts" "res = fetchJson n"
    "delays = map (\<lambda>k. min 45 (2 ^ (k - 1) + random k)) [1..<n]"
    "\<forall>k. 1 \<le> k \<and> k < n \<longrightarrow> retried maxAttempts (aborted k) k (fetchJson k)"
    "\<not> retried maxAttempts (aborted n) n (fetchJson n)"
    by simp_all
  have d: "delays ! (k - 1) = min 45 (2 ^ (k - 1) + random k)" if "1 \<le> k" "k < n" for k
  proof -
    from that have "k - 1 < length [1..<n]" by simp
    moreover from that have "[1..<n] ! (k - 1) = k" by (simp add: nth_upt)
    ultimately show ?thesis unfolding s(4) by (simp only: nth_map)
  qed
  have b: "1 \<le> min 45 (2 ^ (k - 1) + random k)" "min 45 (2 ^ (k - 1) + random k) \<le> (45::real)" for k
  proof -
    have p: "(1::real) \<le> 2 ^ (k - 1)" by (rule one_le_power) simp
    have r: "0 \<le> random k" using assms(2) by simp
    from p r have "1 \<le> 2 ^ (k - 1) + random k" by linarith
    then show "1 \<le> min 45 (2 ^ (k - 1) + random k)" by simp
    show "min 45 (2 ^ (k - 1) + random k) \<le> (45::real)" by simp
  qed
  have len: "length delays = n - 1" by (simp add: s(4))
  have all: "\<forall>k. 1 \<le> k \<and> k < n \<longrightarrow> delays ! (k - 1) = min 45 (2 ^ (k - 1) + random k)
          \<and> 1 \<le> delays ! (k - 1) \<and> delays ! (k - 1) \<le> 45"
  proof (intro allI impI)
    fix k assume "1 \<le> k \<and> k < n"
    then have e: "delays ! (k - 1) = min 45 (2 ^ (k - 1) + random k)" using d by blast
    show "delays ! (k - 1) = min 45 (2 ^ (k - 1) + random k)
          \<and> 1 \<le> delays ! (k - 1) \<and> delays ! (k - 1) \<le> 45"
      unfolding e using b[of k] by blast
  qed
  from s(1,2,3,5,6) len all show ?thesis by blast
qed

lemma flaky_run:
  "fetchJsonWithRetry flaky (\<lambda>k. False) (\<lambda>k. 1 / 2) 6 = (Inr ''{}'', 3, [3 / 2, 5 / 2])"
  by (simp add: fetchJsonWithRetry_def retryLoop.simps flaky_def isAbortError_def isTimeoutError_def
      isRetryableError_def RETRY_MARKERS_def toErrorMessage_def toLowerCase_def toLowerChar_def Let_def)

lemma timeout_retryable:
  "isRetryableError (TimeoutError ''Request timed out after 180s | url=u | payload_bytes=2'')"
  by (simp add: isRetryableError_def RETRY_MARKERS_def toErrorMessage_def toLowerCase_def toLowerChar_def Let_def)

lemma rate_limit_retryable:
  "isRetryableError (OtherError ''HTTP 429 Too Many Requests | response='')"
  by (simp add: isRetryableError_def RETRY_MARKERS_def toErrorMessage_def toLowerCase_def toLowerChar_def Let_def)

text \<open>
  C4 fails as stated: the message of a \<^verbatim>\<open>TimeoutError\<close> matches the markers, and the
  error is raised after the first attempt; and an HTTP 429 is raised at once when the
  caller's signal is aborted.
\<close>

theorem matching_errors_not_retried:
  "isRetryableError (TimeoutError ''Request timed out after 180s | url=u | payload_bytes=2'')
   \<and> fetchJsonWithRetry (\<lambda>k. Inl (TimeoutError ''Request timed out after 180s | url=u | payload_bytes=2'') :: error + string)
        (\<lambda>k. False) (\<lambda>k. 0) 6
      = (Inl (TimeoutError ''Request timed out after 180s | url=u | payload_bytes=2''), 1, [])
   \<and> isRetryableError (OtherError ''HTTP 429 Too Many Requests | response='')
   \<and> fetchJsonWithRetry (\<lambda>k. Inl (OtherError ''HTTP 429 Too Many Requests | response='') :: error + string)
        (\<lambda>k. True) (\<lambda>k. 0) 6
      = (Inl (OtherError ''HTTP 429 Too Many Requests | response=''), 1, [])"
  using timeout_retryable rate_limit_retryable
  by (simp add: fetchJsonWithRetry_def retryLoop.simps isAbortError_def isTimeoutError_def)

theorem fetchJsonWithRetry_policy_witness:
  "fetchJsonWithRetry flaky (\<lambda>k. False) (\<lambda>k. 1 / 2) 6 = (Inr ''{}'', 3, [3 / 2, 5 / 2])
   \<and> (3::nat) \<le> max 1 6 \<and> retried 6 False 1 (flaky 1) \<and> retried 6 False 2 (flaky 2) \<and> \<not> retried 6 False 3 (flaky 3)
   \<and> [3 / 2, 5 / 2 :: real] ! (2 - 1) = min 45 (2 ^ (2 - 1) + 1 / 2)"
  using fetchJsonWithRetry_policy [OF flaky_run] flaky_run
  by (auto simp: numeral_2_eq_2)

section \<open>Verification: resume checkpoint\<close>

lemma keys_assign: "fst ` set (assign m k v) = insert k (fst ` set m)"
  by (induction m k v rule: assign.induct) auto

lemma keys_foldl_assign:
  "fst ` set (foldl (\<lambda>acc (k, rows). if P rows then assign acc k (f rows) else acc) acc0 xs)
     = fst ` set acc0 \<union> {k. \<exists>rows. (k, rows) \<in> set xs \<and> P rows}"
proof (induction xs arbitrary: acc0)
  case Nil
  then show ?case by simp
next
  case (Cons x xs)
  obtain k rows where x: "x = (k, rows)" by (cases x)
  show ?case
    unfolding x by (simp add: Cons.IH keys_assign) blast
qed

lemma keys_memoryCandidatesMap:
  "fst ` set (memoryCandidatesMap cp)
     = {file. \<exists>rows. (file, rows) \<in> set (memoryCandidatesBySourceFile cp)
          \<and> sanitizeMemoryCandidateRows (JArr (map candidateObject rows)) \<noteq> []}"
  unfolding memoryCandidatesMap_def Let_def
  using keys_foldl_assign[of "\<lambda>rows. length (sanitizeMemoryCandidateRows (JArr (map candidateObject rows))) > 0"
      "\<lambda>rows. sanitizeMemoryCandidateRows (JArr (map candidateObject rows))" "[]"
      "memoryCandidatesBySourceFile cp"]
  by simp

text \<open>
  C3 (as amended). For a selected memory conversation the extraction call is skipped exactly
  when its source file is recorded in the checkpoint's \<^verbatim>\<open>processedMemoryFiles\<close> or is
  present with at least one sanitized candidate in \<^verbatim>\<open>memoryCandidatesBySourceFile\<close>: one
  of the two records suffices.
\<close>

theorem memory_call_skipped_iff_either_record:
  assumes "chunk \<in> set chunksForMemory"
  shows "chunk \<notin> set (memoryChunksPending cp chunksForMemory) \<longleftrightarrow>
     sourceFile chunk \<in> set (processedMemoryFiles cp)
     \<or> (\<exists>rows. (sourceFile chunk, rows) \<in> set (memoryCandidatesBySourceFile cp)
            \<and> sanitizeMemoryCandidateRows (JArr (map candidateObject rows)) \<noteq> [])"
  using assms
  by (auto simp: memoryChunksPending_def processedMemoryFileSet_def keys_memoryCandidatesMap Let_def)

lemma pending_of_fallback:
  "personaChunksPending False (fallbackCheckpoint sig now) chunksP = chunksP"
  "memoryChunksPending (fallbackCheckpoint sig now) chunksM = chunksM"
  by (simp_all add: personaChunksPending_def memoryChunksPending_def fallbackCheckpoint_def
      personaObservationByConversation_def processedMemoryFileSet_def memoryCandidatesMap_def has_def)

text \<open>
  What \<^verbatim>\<open>normalizeResumeCheckpoint\<close> does with a stored signature that differs from the
  signature of the run. When the stored object holds no persona observation, no memory
  candidate entry and no processed file, the result is the empty checkpoint and every
  selected chunk is pending. When it holds any, the data is loaded under every signature:
  the comparison of the signatures has no effect on it.
\<close>

lemma mismatched_checkpoint_without_data_is_empty:
  assumes "asRecord v = Some rootRec" and "safeString (getProp rootRec ''signature'') [] \<noteq> sig"
    and "\<not> hasLegacyData rootRec"
  shows "readResumeCheckpoint (Some v) sig now = fallbackCheckpoint sig now"
    and "personaChunksPending False (readResumeCheckpoint (Some v) sig now) chunksP = chunksP"
    and "memoryChunksPending (readResumeCheckpoint (Some v) sig now) chunksM = chunksM"
proof -
  show e: "readResumeCheckpoint (Some v) sig now = fallbackCheckpoint sig now"
    using assms by (simp add: readResumeCheckpoint_def normalizeResumeCheckpoint_def Let_def)
  show "personaChunksPending False (readResumeCheckpoint (Some v) sig now) chunksP = chunksP"
    and "memoryChunksPending (readResumeCheckpoint (Some v) sig now) chunksM = chunksM"
    unfolding e by (rule pending_of_fallback)+
qed

lemma checkpoint_data_loaded_under_any_signature:
  assumes "asRecord v = Some rootRec" and "hasLegacyData rootRec"
  shows "signature (readResumeCheckpoint (Some v) sig now) = sig"
    and "personaObservationsByConversation (readResumeCheckpoint (Some v) sig now) = loadPersona rootRec"
    and "memoryCandidatesBySourceFile (readResumeCheckpoint (Some v) sig now) = loadMemory rootRec"
    and "processedMemoryFiles (readResumeCheckpoint (Some v) sig now)
           = toStringArray (getProp rootRec ''processedMemoryFiles'')"
  using assms by (simp_all add: readResumeCheckpoint_def normalizeResumeCheckpoint_def Let_def)

lemma stored_loaded:
  "readResumeCheckpoint (Some storedCheckpoint) ''9b1c'' ''now'' =
     \<lparr>version = 1, signature = ''9b1c'', createdAtUtc = ''now'', updatedAtUtc = ''now'',
      personaObservationsByConversation = [(''conv-1'', [(''tone'', JStr ''warm'')])],
      memoryCandidatesBySourceFile =
        [(''a.jsonl'',
          [\<lparr>mName = JStr ''Memory'', mKeys = JArr [JStr ''met'', JStr ''paris'', JStr ''2019''],
            mContent = JStr ''We met in Paris in 2019'', mCategory = JStr ''shared_memory'',
            mPriority = JNum 3, mSourceConversation = JStr [], mSourceDate = JStr []\<rparr>])],
      processedMemoryFiles = [''a.jsonl'']\<rparr>"
  by code_simp

lemma stored_pending:
  "personaChunksPending False (readResumeCheckpoint (Some storedCheckpoint) ''9b1c'' ''now'') [chunkA] = []"
  "memoryChunksPending (readResumeCheckpoint (Some storedCheckpoint) ''9b1c'' ''now'') [chunkA] = []"
  by code_simp+

lemma stored_own_signature:
  "personaObservationsByConversation (readResumeCheckpoint (Some storedCheckpoint) ''3f2a'' ''now'')
     = [(''conv-1'', [(''tone'', JStr ''warm'')])]"
  "processedMemoryFiles (readResumeCheckpoint (Some storedCheckpoint) ''3f2a'' ''now'') = [''a.jsonl'']"
  by code_simp+

text \<open>
  C1 does not hold of the code. The stored checkpoint carries the signature \<^verbatim>\<open>3f2a\<close>, the
  run has \<^verbatim>\<open>9b1c\<close>; the guard \<^verbatim>\<open>hasLegacyData\<close> lets it through because it holds data
  (the code never tests that the stored signature is absent), so the observation, the
  candidates and the processed file are loaded as they are under \<^verbatim>\<open>3f2a\<close>, the result is
  stamped \<^verbatim>\<open>9b1c\<close>, and no call is pending for the chunk of that conversation.
\<close>

theorem mismatched_checkpoint_with_data_is_loaded:
  "safeString (getProp (the (asRecord storedCheckpoint)) ''signature'') [] = ''3f2a''
   \<and> ''3f2a'' \<noteq> ''9b1c''
   \<and> signature (readResumeCheckpoint (Some storedCheckpoint) ''9b1c'' ''now'') = ''9b1c''
   \<and> personaObservationsByConversation (readResumeCheckpoint (Some storedCheckpoint) ''9b1c'' ''now'')
        = [(''conv-1'', [(''tone'', JStr ''warm'')])]
   \<and> processedMemoryFiles (readResumeCheckpoint (Some storedCheckpoint) ''9b1c'' ''now'') = [''a.jsonl'']
   \<and> memoryCandidatesBySourceFile (readResumeCheckpoint (Some storedCheckpoint) ''9b1c'' ''now'') \<noteq> []
   \<and> personaObservationsByConversation (readResumeCheckpoint (Some storedCheckpoint) ''9b1c'' ''now'')
        = personaObservationsByConversation (readResumeCheckpoint (Some storedCheckpoint) ''3f2a'' ''now'')
   \<and> processedMemoryFiles (readResumeCheckpoint (Some storedCheckpoint) ''9b1c'' ''now'')
        = processedMemoryFiles (readResumeCheckpoint (Some storedCheckpoint) ''3f2a'' ''now'')
   \<and> personaChunksPending False (readResumeCheckpoint (Some storedCheckpoint) ''9b1c'' ''now'') [chunkA] = []
   \<and> memoryChunksPending (readResumeCheckpoint (Some storedCheckpoint) ''9b1c'' ''now'') [chunkA] = []"
proof -
  have "safeString (getProp (the (asRecord storedCheckpoint)) ''signature'') [] = ''3f2a''"
    by code_simp
  then show ?thesis
    by (simp add: stored_pending stored_own_signature) (simp add: stored_loaded)
qed

text \<open>
  C3 fails as stated: the file is recorded as processed, no candidates are stored for it,
  and the extraction call is skipped.
\<close>

theorem one_record_suffices_to_skip:
  "sourceFile chunkA \<in> set (processedMemoryFiles onlyProcessed)
   \<and> memoryCandidatesBySourceFile onlyProcessed = []
   \<and> memoryChunksPending onlyProcessed [chunkA] = []"
  by code_simp

theorem memory_call_skipped_iff_either_record_witness:
  "chunkA \<in> set [chunkA]
   \<and> chunkA \<notin> set (memoryChunksPending onlyProcessed [chunkA])
   \<and> sourceFile chunkA \<in> set (processedMemoryFiles onlyProcessed)"
proof -
  have p: "sourceFile chunkA \<in> set (processedMemoryFiles onlyProcessed)"
    by (simp add: chunkA_def onlyProcessed_def)
  have m: "chunkA \<in> set [chunkA]" by simp
  from memory_call_skipped_iff_either_record [OF m, of onlyProcessed] p m
  show ?thesis by blast
qed

end
